theory Spec2Isabelle
  imports Complex_Main
begin

section \<open>Values, errors and buffers\<close>

text \<open>
  The generator script \<^verbatim>\<open>high_polygon_stl_generator.py\<close> builds two Python lists,
  \<^verbatim>\<open>vertices\<close> and \<^verbatim>\<open>faces\<close>, and hands them to numpy-stl. A face is a list of three
  indices into \<^verbatim>\<open>vertices\<close>. The coordinates of a vertex are double precision numbers
  computed with \<^verbatim>\<open>math.sin\<close> and \<^verbatim>\<open>math.cos\<close>; they are kept symbolic here: a point
  records which sampling expression of the source produced it and with which loop
  variables. Indices, counts and the control flow are modelled exactly.
\<close>

datatype error = ValueError | IndexError | OverflowError

datatype axis = X_axis | Y_axis | Z_axis

datatype point =
    ConeTip
  | ConeRim nat nat
  | ConeBaseCenter
  | AxisMarker axis nat
  | ArrowPoint nat nat nat nat nat
  | SpiralPoint nat nat nat nat nat
  | GridPoint nat nat
  | CornerMarker nat nat "nat \<times> nat"
  | ArrowCenter "nat \<times> nat"
  | ArrowBase nat "nat \<times> nat"
  | ArrowTip "nat \<times> nat"
  | XAxisLine nat "nat \<times> nat"
  | YAxisLine nat "nat \<times> nat"

text \<open>
  \<open>ConeRim i n\<close> is rim sample \<open>i\<close> of \<open>n\<close> (lines 41-55); \<open>AxisMarker a k\<close> is entry \<open>k\<close> of
  the five-point template of axis \<open>a\<close>; \<open>GridPoint i j\<close> is the grid vertex read at row
  \<open>i\<close>, column \<open>j\<close> of the three arrays; \<open>CornerMarker c k z\<close> is entry \<open>k\<close> of the box at
  corner \<open>c\<close>, and in the last six constructors the pair is the position in \<^verbatim>\<open>z_grid\<close>
  the height was read from. The arrow and spiral points are explained with their stages.
\<close>

type_synonym face = "nat \<times> nat \<times> nat"

type_synonym triangle = "point \<times> point \<times> point"

record mesh =
  vertices :: "point list"
  faces :: "face list"

text \<open>
  A run that raises carries the exception and the buffers as they were at that moment
  (\<open>None\<close> when the two lists had not been created yet). A run that reaches
  \<^verbatim>\<open>stl_mesh.save\<close> yields the final buffers, the triangles written to the file and the
  returned triangle count.
\<close>

type_synonym failure = "error \<times> mesh option"

record outcome =
  buffers :: mesh
  stl_file :: "triangle list"
  actual_triangles :: nat

definition empty_mesh :: mesh where
  "empty_mesh = \<lparr>vertices = [], faces = []\<rparr>"

definition append_vertex :: "point \<Rightarrow> mesh \<Rightarrow> mesh" where
  "append_vertex p m = m\<lparr>vertices := vertices m @ [p]\<rparr>"

definition append_face :: "face \<Rightarrow> mesh \<Rightarrow> mesh" where
  "append_face f m = m\<lparr>faces := faces m @ [f]\<rparr>"

text \<open>
  The pattern of lines 230-239, 284-293, 490-497 and 500-507: remember the current
  vertex count, append four points, append the two triangles of the quad.
\<close>

definition append_quad :: "point \<Rightarrow> point \<Rightarrow> point \<Rightarrow> point \<Rightarrow> mesh \<Rightarrow> mesh" where
  "append_quad p1 p2 p3 p4 m =
     (let v_idx = length (vertices m);
          m1 = append_vertex p4 (append_vertex p3 (append_vertex p2 (append_vertex p1 m)))
      in append_face (v_idx + 1, v_idx + 3, v_idx + 2)
           (append_face (v_idx, v_idx + 1, v_idx + 2) m1))"

section \<open>The resolution formula\<close>

text \<open>
  Lines 18 and 249 compute \<^verbatim>\<open>int(math.sqrt(t / 10))\<close> on an integer \<open>t\<close>. Python forms
  the quotient of the two integers and rounds it once, to the nearest double, ties to
  even; it raises \<^verbatim>\<open>OverflowError\<close> when the rounded value does not fit a double, that
  is when its magnitude is \<open>2\<^sup>1\<^sup>0\<^sup>2\<^sup>4\<close> or more. \<^verbatim>\<open>math.sqrt\<close> raises \<^verbatim>\<open>ValueError\<close> on a
  negative argument and returns the correctly rounded root otherwise, and \<^verbatim>\<open>int\<close>
  truncates.

  A non-negative double is kept as a pair \<open>(m, e)\<close> of naturals standing for
  \<open>m * 2\<^sup>e / 2\<^sup>1\<^sup>0\<^sup>7\<^sup>4\<close>, with a mantissa \<open>2\<^sup>5\<^sup>2 \<le> m \<le> 2\<^sup>5\<^sup>3\<close> unless the value is 0 (a
  mantissa rounded up to \<open>2\<^sup>5\<^sup>3\<close> stands for the next power of two). The quotients and
  roots that occur here are 0 or normal numbers.
\<close>

type_synonym double = "nat \<times> nat"

text \<open>The integer square root, digit by digit in base 2.\<close>

fun isqrt :: "nat \<Rightarrow> nat" where
  "isqrt n =
     (if n = 0 then 0
      else let r = 2 * isqrt (n div 4)
           in if (r + 1) * (r + 1) \<le> n then r + 1 else r)"

declare isqrt.simps [simp del]

text \<open>The number of binary digits of \<open>n\<close> (\<^verbatim>\<open>int.bit_length\<close>).\<close>

fun bit_length :: "nat \<Rightarrow> nat" where
  "bit_length n = (if n = 0 then 0 else Suc (bit_length (n div 2)))"

declare bit_length.simps [simp del]

text \<open>The integer nearest to \<open>a / b\<close>, the even one of the two when \<open>a / b\<close> lies halfway.\<close>

definition round_half_even :: "nat \<Rightarrow> nat \<Rightarrow> nat" where
  "round_half_even a b =
     (let q = a div b; r = a mod b
      in if 2 * r < b then q else if b < 2 * r then q + 1 else q + q mod 2)"

text \<open>
  The magnitude of \<^verbatim>\<open>t / 10\<close> for an integer of magnitude \<open>t\<close>: the exponent \<open>e\<close> is the
  one that puts the quotient \<open>t * 2\<^sup>1\<^sup>0\<^sup>7\<^sup>4 / (10 * 2\<^sup>e)\<close> between \<open>2\<^sup>5\<^sup>2\<close> and \<open>2\<^sup>5\<^sup>3\<close>, and the
  mantissa is that quotient, rounded.
\<close>

definition true_div10 :: "nat \<Rightarrow> double" where
  "true_div10 t =
     (let l = bit_length t;
          e = (if 10 * 2 ^ l \<le> 16 * t then l + 1018 else l + 1017)
      in (round_half_even (t * 2 ^ 1074) (10 * 2 ^ e), e))"

text \<open>The value is \<open>2\<^sup>1\<^sup>0\<^sup>2\<^sup>4\<close> or more: the division raises \<^verbatim>\<open>OverflowError\<close>.\<close>

definition overflows :: "double \<Rightarrow> bool" where
  "overflows x = (case x of (m, e) \<Rightarrow> 2 ^ 2098 \<le> m * 2 ^ e)"

text \<open>
  \<^verbatim>\<open>math.sqrt\<close> on a non-negative double: the exponent is made even, the mantissa is
  scaled by \<open>2\<^sup>5\<^sup>2\<close>, and the root of the scaled mantissa is rounded to the nearest integer
  (a root of an integer never lies halfway between two integers).
\<close>

definition math_sqrt :: "double \<Rightarrow> double" where
  "math_sqrt x =
     (case x of (m, e) \<Rightarrow>
        let m' = (if even e then m else 2 * m);
            e' = (if even e then e else e - 1);
            n = m' * 2 ^ 52;
            s = isqrt n;
            r = (if s * s + s < n then s + 1 else s)
        in (r, e' div 2 + 511))"

text \<open>\<^verbatim>\<open>int\<close> on a non-negative double.\<close>

definition int_of_double :: "double \<Rightarrow> nat" where
  "int_of_double x = (case x of (m, e) \<Rightarrow> (m * 2 ^ e) div 2 ^ 1074)"

text \<open>
  \<^verbatim>\<open>int(math.sqrt(t / 10))\<close>: the division comes first and raises on overflow whatever
  the sign, then the square root raises on a negative quotient.
\<close>

definition int_sqrt_div10 :: "int \<Rightarrow> error + nat" where
  "int_sqrt_div10 t =
     (let x = true_div10 (nat \<bar>t\<bar>)
      in if overflows x then Inl OverflowError
         else if t < 0 then Inl ValueError
         else Inr (int_of_double (math_sqrt x)))"

section \<open>The cone generator\<close>

text \<open>Lines 36-72: tip, rim, side faces, base centre, cap faces.\<close>

definition cone_body :: "nat \<Rightarrow> mesh \<Rightarrow> mesh" where
  "cone_body resolution m0 =
     (let vertex_offset = 0;
          m1 = append_vertex ConeTip m0;
          m2 = fold (\<lambda>i. append_vertex (ConeRim i resolution)) [0..<resolution] m1;
          m3 = fold (\<lambda>i. append_face (0 + vertex_offset,
                                        1 + i + vertex_offset,
                                        1 + ((i + 1) mod resolution) + vertex_offset))
                 [0..<resolution] m2;
          m4 = append_vertex ConeBaseCenter m3;
          center_idx = length (vertices m4) - 1
      in fold (\<lambda>i. append_face (center_idx,
                                   1 + ((i + 1) mod resolution) + vertex_offset,
                                   1 + i + vertex_offset))
           [0..<resolution] m4)"

text \<open>
  Lines 81-169: the three axis markers. The source repeats the same code for X, Y and
  Z with the same face template; only the coordinates of the five points differ.
\<close>

definition axis_faces :: "face list" where
  "axis_faces = [(0, 1, 4), (1, 2, 4), (2, 3, 4), (3, 0, 4), (0, 3, 1), (1, 3, 2)]"

definition axis_marker :: "axis \<Rightarrow> mesh \<Rightarrow> mesh" where
  "axis_marker a m =
     (let vertex_offset = length (vertices m);
          m1 = fold (\<lambda>k. append_vertex (AxisMarker a k)) [0..<5] m
      in fold (\<lambda>(f0, f1, f2). append_face (f0 + vertex_offset, f1 + vertex_offset, f2 + vertex_offset))
           axis_faces m1)"

text \<open>
  Lines 181-239: the arrow patches. \<open>ArrowPoint i n t s d\<close> is the point at angle
  \<open>2 \<pi> i / n\<close>, height parameter \<open>t / d\<close> and width parameter \<open>s / d\<close>.
\<close>

definition arrow_patches :: "nat \<Rightarrow> mesh \<Rightarrow> mesh" where
  "arrow_patches base_resolution m =
     (let arrow_resolution = base_resolution div 10;
          detail_res = base_resolution div 20
      in fold (\<lambda>i. fold (\<lambda>j. fold (\<lambda>k.
                 append_quad (ArrowPoint i arrow_resolution j k detail_res)
                             (ArrowPoint i arrow_resolution j (k + 1) detail_res)
                             (ArrowPoint i arrow_resolution (j + 1) k detail_res)
                             (ArrowPoint i arrow_resolution (j + 1) (k + 1) detail_res))
               [0..<detail_res]) [0..<detail_res]) [0..<arrow_resolution] m)"

text \<open>
  Lines 252-293: the spiral texture. \<open>SpiralPoint r c i p t\<close> is the point with radius
  and height of row \<open>r\<close> (of \<open>p\<close>), at angle \<open>2 \<pi> c / t\<close> plus the twist of row \<open>i\<close>.
\<close>

definition spiral_fill :: "nat \<Rightarrow> nat \<Rightarrow> mesh \<Rightarrow> mesh" where
  "spiral_fill spiral_res_theta spiral_res_phi m =
     fold (\<lambda>i. fold (\<lambda>j.
            append_quad (SpiralPoint i j i spiral_res_phi spiral_res_theta)
                        (SpiralPoint i (j + 1) i spiral_res_phi spiral_res_theta)
                        (SpiralPoint (i + 1) j i spiral_res_phi spiral_res_theta)
                        (SpiralPoint (i + 1) (j + 1) i spiral_res_phi spiral_res_theta))
          [0..<spiral_res_theta]) [0..<spiral_res_phi] m"

text \<open>The stages before the texture fill (lines 23-239), on fresh buffers.\<close>

definition fixed_stages :: "nat \<Rightarrow> mesh" where
  "fixed_stages base_resolution =
     arrow_patches base_resolution
       (axis_marker Z_axis (axis_marker Y_axis (axis_marker X_axis
          (cone_body base_resolution empty_mesh))))"

text \<open>Lines 17-293: everything up to the conversion to arrays.\<close>

definition build_directional_model :: "int \<Rightarrow> failure + mesh" where
  "build_directional_model num_triangles =
     (case int_sqrt_div10 num_triangles of
        Inl e \<Rightarrow> Inl (e, None)
      | Inr base_resolution \<Rightarrow>
          let m = fixed_stages base_resolution;
              remaining_triangles = num_triangles - int (length (faces m))
          in if remaining_triangles > 0 then
               (case int_sqrt_div10 remaining_triangles of
                  Inl e \<Rightarrow> Inl (e, Some m)
                | Inr spiral_res_theta \<Rightarrow>
                    let spiral_res_phi = spiral_res_theta * 10
                    in Inr (spiral_fill spiral_res_theta spiral_res_phi m))
             else Inr m)"

section \<open>Serialization\<close>

text \<open>
  Lines 298-317 and 512-531: \<^verbatim>\<open>vertices[face[j]]\<close> for every face and every
  \<open>j < 3\<close>; an index outside the array raises \<^verbatim>\<open>IndexError\<close> (no index is negative
  here). Then the file is saved and the number of faces returned.
\<close>

definition getitem :: "'a list \<Rightarrow> nat \<Rightarrow> error + 'a" where
  "getitem xs i = (if i < length xs then Inr (xs ! i) else Inl IndexError)"

fun stl_vectors :: "point list \<Rightarrow> face list \<Rightarrow> error + triangle list" where
  "stl_vectors vs [] = Inr []"
| "stl_vectors vs ((a, b, c) # fs) =
     (case getitem vs a of Inl e \<Rightarrow> Inl e | Inr pa \<Rightarrow>
      case getitem vs b of Inl e \<Rightarrow> Inl e | Inr pb \<Rightarrow>
      case getitem vs c of Inl e \<Rightarrow> Inl e | Inr pc \<Rightarrow>
      case stl_vectors vs fs of Inl e \<Rightarrow> Inl e | Inr ts \<Rightarrow> Inr ((pa, pb, pc) # ts))"

definition save_mesh :: "mesh \<Rightarrow> failure + outcome" where
  "save_mesh m =
     (case stl_vectors (vertices m) (faces m) of
        Inl e \<Rightarrow> Inl (e, Some m)
      | Inr ts \<Rightarrow> Inr \<lparr>buffers = m, stl_file = ts, actual_triangles = length (faces m)\<rparr>)"

definition create_directional_model :: "int \<Rightarrow> failure + outcome" where
  "create_directional_model num_triangles =
     (case build_directional_model num_triangles of
        Inl f \<Rightarrow> Inl f
      | Inr m \<Rightarrow> save_mesh m)"

section \<open>The terrain generator\<close>

text \<open>
  Of a numpy array only the shape matters here. \<^verbatim>\<open>np.linspace(-10, 10, num)\<close>
  raises \<^verbatim>\<open>ValueError\<close> for a negative \<open>num\<close> and has \<open>num\<close> entries otherwise;
  \<^verbatim>\<open>np.meshgrid(x, y)\<close> (default indexing \<^verbatim>\<open>xy\<close>) gives arrays of shape
  \<open>(len y, len x)\<close>; \<^verbatim>\<open>np.zeros((a, b))\<close> has shape \<open>(a, b)\<close>. The in-place addition
  \<^verbatim>\<open>z += r\<close> broadcasts the two shapes and raises \<^verbatim>\<open>ValueError\<close> when they do not
  broadcast or when the broadcast shape is not the shape of \<open>z\<close>. An index \<open>i\<close> into an
  axis of length \<open>n\<close> is valid for \<open>- n \<le> i < n\<close>, negative indices counting from the
  end, and raises \<^verbatim>\<open>IndexError\<close> otherwise.
\<close>

type_synonym shape = "nat \<times> nat"

definition np_linspace :: "int \<Rightarrow> error + nat" where
  "np_linspace num = (if num < 0 then Inl ValueError else Inr (nat num))"

definition np_meshgrid :: "nat \<Rightarrow> nat \<Rightarrow> shape" where
  "np_meshgrid xn yn = (yn, xn)"

definition np_zeros :: "int \<Rightarrow> int \<Rightarrow> error + shape" where
  "np_zeros a b = (if a < 0 \<or> b < 0 then Inl ValueError else Inr (nat a, nat b))"

definition broadcast_dim :: "nat \<Rightarrow> nat \<Rightarrow> error + nat" where
  "broadcast_dim a b =
     (if a = b then Inr a else if a = 1 then Inr b else if b = 1 then Inr a
      else Inl ValueError)"

definition np_iadd :: "shape \<Rightarrow> shape \<Rightarrow> error + shape" where
  "np_iadd z r =
     (case broadcast_dim (fst z) (fst r) of Inl e \<Rightarrow> Inl e | Inr d0 \<Rightarrow>
      case broadcast_dim (snd z) (snd r) of Inl e \<Rightarrow> Inl e | Inr d1 \<Rightarrow>
      if (d0, d1) = z then Inr z else Inl ValueError)"

definition np_index :: "nat \<Rightarrow> int \<Rightarrow> error + nat" where
  "np_index n i =
     (if 0 \<le> i \<and> i < int n then Inr (nat i)
      else if - int n \<le> i \<and> i < 0 then Inr (nat (int n + i))
      else Inl IndexError)"

definition getitem2 :: "shape \<Rightarrow> int \<Rightarrow> int \<Rightarrow> error + nat \<times> nat" where
  "getitem2 sh i j =
     (case np_index (fst sh) i of Inl e \<Rightarrow> Inl e | Inr r \<Rightarrow>
      case np_index (snd sh) j of Inl e \<Rightarrow> Inl e | Inr c \<Rightarrow> Inr (r, c))"

text \<open>A loop whose body may raise: the first exception ends it.\<close>

fun foldE :: "('a \<Rightarrow> 's \<Rightarrow> 'e + 's) \<Rightarrow> 'a list \<Rightarrow> 's \<Rightarrow> 'e + 's" where
  "foldE f [] s = Inr s"
| "foldE f (x # xs) s = (case f x s of Inl e \<Rightarrow> Inl e | Inr s' \<Rightarrow> foldE f xs s')"

text \<open>
  Lines 344-354: the coordinate arrays and the height field. The result is the shape of
  \<^verbatim>\<open>x_grid\<close> and \<^verbatim>\<open>y_grid\<close> and the shape of \<^verbatim>\<open>z_grid\<close>; \<open>m\<close> is the pair of (still
  empty) buffers, created in lines 335-336.
\<close>

definition terrain_arrays :: "int \<Rightarrow> int \<Rightarrow> mesh \<Rightarrow> failure + shape \<times> shape" where
  "terrain_arrays width height m =
     (case np_linspace width of Inl e \<Rightarrow> Inl (e, Some m) | Inr xn \<Rightarrow>
      case np_linspace height of Inl e \<Rightarrow> Inl (e, Some m) | Inr yn \<Rightarrow>
      let grid = np_meshgrid xn yn in
      case np_zeros width height of Inl e \<Rightarrow> Inl (e, Some m) | Inr z0 \<Rightarrow>
      case foldE (\<lambda>freq z. np_iadd z grid) [1, 2, 3, 5, 8, 13 :: nat] z0 of
        Inl e \<Rightarrow> Inl (e, Some m) | Inr z1 \<Rightarrow>
      case np_iadd z1 grid of Inl e \<Rightarrow> Inl (e, Some m) | Inr z2 \<Rightarrow>
      Inr (grid, z2))"

text \<open>Lines 357-359: one vertex per grid point, read from the three arrays.\<close>

definition grid_vertex :: "shape \<Rightarrow> shape \<Rightarrow> nat \<Rightarrow> nat \<Rightarrow> mesh \<Rightarrow> failure + mesh" where
  "grid_vertex grid z i j m =
     (case getitem2 grid (int i) (int j) of Inl e \<Rightarrow> Inl (e, Some m) | Inr xy \<Rightarrow>
      case getitem2 z (int i) (int j) of Inl e \<Rightarrow> Inl (e, Some m) | Inr rc \<Rightarrow>
      Inr (append_vertex (GridPoint (fst rc) (snd rc)) m))"

definition grid_vertices :: "shape \<Rightarrow> shape \<Rightarrow> int \<Rightarrow> int \<Rightarrow> mesh \<Rightarrow> failure + mesh" where
  "grid_vertices grid z width height m =
     foldE (\<lambda>i. foldE (\<lambda>j. grid_vertex grid z i j) [0..<nat width]) [0..<nat height] m"

text \<open>Lines 362-371: two triangles per grid cell.\<close>

definition grid_cell :: "nat \<Rightarrow> nat \<Rightarrow> nat \<Rightarrow> mesh \<Rightarrow> mesh" where
  "grid_cell width i j m =
     (let p1 = i * width + j;
          p2 = p1 + 1;
          p3 = (i + 1) * width + j;
          p4 = p3 + 1
      in append_face (p2, p4, p3) (append_face (p1, p2, p3) m))"

definition grid_faces :: "int \<Rightarrow> int \<Rightarrow> mesh \<Rightarrow> mesh" where
  "grid_faces width height m =
     fold (\<lambda>i. fold (\<lambda>j. grid_cell (nat width) i j) [0..<nat (width - 1)])
       [0..<nat (height - 1)] m"

text \<open>Lines 380-424: a box of 8 vertices and 12 faces at each corner.\<close>

definition marker_faces :: "face list" where
  "marker_faces =
     [(0, 2, 1), (0, 3, 2),
      (0, 1, 5), (0, 5, 4),
      (1, 2, 6), (1, 6, 5),
      (2, 3, 7), (2, 7, 6),
      (3, 0, 4), (3, 4, 7),
      (4, 5, 6), (4, 6, 7)]"

definition corner_marker :: "nat \<times> (nat \<times> nat) \<Rightarrow> mesh \<Rightarrow> mesh" where
  "corner_marker ic m =
     (let v_idx = length (vertices m);
          m1 = fold (\<lambda>k. append_vertex (CornerMarker (fst ic) k (snd ic))) [0..<8] m
      in fold (\<lambda>(f0, f1, f2). append_face (f0 + v_idx, f1 + v_idx, f2 + v_idx))
           marker_faces m1)"

definition corner_markers :: "shape \<Rightarrow> mesh \<Rightarrow> failure + mesh" where
  "corner_markers z m =
     (case getitem2 z 0 0 of Inl e \<Rightarrow> Inl (e, Some m) | Inr sw \<Rightarrow>
      case getitem2 z 0 (- 1) of Inl e \<Rightarrow> Inl (e, Some m) | Inr se \<Rightarrow>
      case getitem2 z (- 1) 0 of Inl e \<Rightarrow> Inl (e, Some m) | Inr nw \<Rightarrow>
      case getitem2 z (- 1) (- 1) of Inl e \<Rightarrow> Inl (e, Some m) | Inr ne \<Rightarrow>
      Inr (fold corner_marker (zip [0..<4] [sw, se, nw, ne]) m))"

text \<open>
  Lines 430-468: the central arrow. \<^verbatim>\<open>base_vertices_idx\<close> collects the indices of the
  rim vertices; it has \<open>arrow_resolution\<close> entries when the two fans read it with
  indices below \<open>arrow_resolution\<close>.
\<close>

definition arrow_base_vertex :: "nat \<times> nat \<Rightarrow> nat \<Rightarrow> mesh \<times> nat list \<Rightarrow> mesh \<times> nat list" where
  "arrow_base_vertex zc i s =
     (let m1 = append_vertex (ArrowBase i zc) (fst s)
      in (m1, snd s @ [length (vertices m1) - 1]))"

definition central_arrow :: "shape \<Rightarrow> int \<Rightarrow> int \<Rightarrow> mesh \<Rightarrow> failure + mesh" where
  "central_arrow z width height m =
     (let arrow_resolution = 20 in
      case getitem2 z (height div 2) (width div 2) of Inl e \<Rightarrow> Inl (e, Some m) | Inr zc \<Rightarrow>
      let center_vertex_idx = length (vertices m);
          m1 = append_vertex (ArrowCenter zc) m;
          s = fold (arrow_base_vertex zc) [0..<arrow_resolution] (m1, []);
          m2 = fst s;
          base_vertices_idx = snd s;
          tip_vertex_idx = length (vertices m2);
          m3 = append_vertex (ArrowTip zc) m2;
          m4 = fold (\<lambda>i. append_face (center_vertex_idx,
                                        base_vertices_idx ! i,
                                        base_vertices_idx ! ((i + 1) mod arrow_resolution)))
                 [0..<arrow_resolution] m3
      in Inr (fold (\<lambda>i. append_face (tip_vertex_idx,
                                       base_vertices_idx ! i,
                                       base_vertices_idx ! ((i + 1) mod arrow_resolution)))
                [0..<arrow_resolution] m4))"

text \<open>Lines 474-507: the two axis lines, a quad each.\<close>

definition axis_lines :: "shape \<Rightarrow> int \<Rightarrow> int \<Rightarrow> mesh \<Rightarrow> failure + mesh" where
  "axis_lines z width height m =
     (case getitem2 z (height div 2) 0 of Inl e \<Rightarrow> Inl (e, Some m) | Inr x0 \<Rightarrow>
      case getitem2 z (height div 2) (- 1) of Inl e \<Rightarrow> Inl (e, Some m) | Inr x1 \<Rightarrow>
      case getitem2 z 0 (width div 2) of Inl e \<Rightarrow> Inl (e, Some m) | Inr y0 \<Rightarrow>
      case getitem2 z (- 1) (width div 2) of Inl e \<Rightarrow> Inl (e, Some m) | Inr y1 \<Rightarrow>
      Inr (append_quad (YAxisLine 0 y0) (YAxisLine 1 y0) (YAxisLine 2 y1) (YAxisLine 3 y1)
            (append_quad (XAxisLine 0 x0) (XAxisLine 1 x0) (XAxisLine 2 x1) (XAxisLine 3 x1) m)))"

text \<open>Lines 335-507: everything up to the conversion to arrays.\<close>

definition build_terrain :: "int \<Rightarrow> int \<Rightarrow> failure + mesh" where
  "build_terrain width height =
     (let m0 = empty_mesh in
      case terrain_arrays width height m0 of Inl f \<Rightarrow> Inl f | Inr (grid, z) \<Rightarrow>
      case grid_vertices grid z width height m0 of Inl f \<Rightarrow> Inl f | Inr m1 \<Rightarrow>
      let m2 = grid_faces width height m1 in
      case corner_markers z m2 of Inl f \<Rightarrow> Inl f | Inr m3 \<Rightarrow>
      case central_arrow z width height m3 of Inl f \<Rightarrow> Inl f | Inr m4 \<Rightarrow>
      axis_lines z width height m4)"

definition create_complex_oriented_terrain :: "int \<Rightarrow> int \<Rightarrow> failure + outcome" where
  "create_complex_oriented_terrain width height =
     (case build_terrain width height of
        Inl f \<Rightarrow> Inl f
      | Inr m \<Rightarrow> save_mesh m)"

section \<open>Properties of meshes\<close>

text \<open>The two triangles that \<open>append_quad\<close> adds when the buffer holds \<open>v\<close> vertices.\<close>

definition quad_faces :: "nat \<Rightarrow> face list" where
  "quad_faces v = [(v, v + 1, v + 2), (v + 1, v + 3, v + 2)]"

text \<open>Every index of a face is below the vertex count \<open>n\<close>.\<close>

definition face_in_range :: "nat \<Rightarrow> face \<Rightarrow> bool" where
  "face_in_range n f = (case f of (a, b, c) \<Rightarrow> a < n \<and> b < n \<and> c < n)"

definition indices_valid :: "mesh \<Rightarrow> bool" where
  "indices_valid m = list_all (face_in_range (length (vertices m))) (faces m)"

text \<open>The three indices of a face are pairwise different.\<close>

definition face_distinct :: "face \<Rightarrow> bool" where
  "face_distinct f = (case f of (a, b, c) \<Rightarrow> a \<noteq> b \<and> b \<noteq> c \<and> a \<noteq> c)"

definition no_degenerate :: "mesh \<Rightarrow> bool" where
  "no_degenerate m = list_all face_distinct (faces m)"

text \<open>The triangle looked up for a face whose indices are in range.\<close>

definition resolve :: "point list \<Rightarrow> face \<Rightarrow> triangle" where
  "resolve vs f = (case f of (a, b, c) \<Rightarrow> (vs ! a, vs ! b, vs ! c))"

text \<open>The number of triangles a run of the cone generator reports (0 when it raises).\<close>

definition cone_triangles :: "int \<Rightarrow> nat" where
  "cone_triangles t =
     (case create_directional_model t of Inl f \<Rightarrow> 0 | Inr r \<Rightarrow> actual_triangles r)"

text \<open>The faces of \<open>c\<close> consecutive quads, the first starting at vertex \<open>v\<close>.\<close>

definition quad_run :: "nat \<Rightarrow> nat \<Rightarrow> face list" where
  "quad_run v c = concat (map (\<lambda>n. quad_faces (v + 4 * n)) [0..<c])"

text \<open>
  Line 243: the budget left after the cone body, the axis markers and the arrow patches
  (0 stands for a run that raised at line 18 and never reaches line 243).
\<close>

definition remaining_triangles :: "int \<Rightarrow> int" where
  "remaining_triangles num_triangles =
     (case int_sqrt_div10 num_triangles of
        Inl e \<Rightarrow> 0
      | Inr base_resolution \<Rightarrow>
          num_triangles - int (length (faces (fixed_stages base_resolution))))"

text \<open>The set of vertex indices a face uses.\<close>

definition face_index_set :: "face \<Rightarrow> nat set" where
  "face_index_set f = (case f of (a, b, c) \<Rightarrow> {a, b, c})"

text \<open>The set of vertex indices the two triangles of a quad use.\<close>

definition quad_index_set :: "nat \<Rightarrow> nat set" where
  "quad_index_set v = \<Union> (face_index_set ` set (quad_faces v))"

text \<open>The two triangles of the grid cell in row \<open>i\<close>, column \<open>j\<close> (lines 364-371).\<close>

definition grid_cell_faces :: "nat \<Rightarrow> nat \<Rightarrow> nat \<Rightarrow> face list" where
  "grid_cell_faces width i j =
     [(i * width + j, i * width + j + 1, (i + 1) * width + j),
      (i * width + j + 1, (i + 1) * width + j + 1, (i + 1) * width + j)]"

text \<open>All grid faces, row by row.\<close>

definition grid_face_list :: "nat \<Rightarrow> nat \<Rightarrow> face list" where
  "grid_face_list width height =
     concat (map (\<lambda>i. concat (map (\<lambda>j. grid_cell_faces width i j) [0..<width - 1]))
       [0..<height - 1])"

text \<open>
  A stage that only appends: \<open>m'\<close> holds the vertices and faces of \<open>m\<close> followed by \<open>a\<close>
  new vertices and \<open>b\<close> new faces, every new face with its indices below the new vertex
  count and pairwise different.
\<close>

definition extends :: "mesh \<Rightarrow> nat \<Rightarrow> nat \<Rightarrow> mesh \<Rightarrow> bool" where
  "extends m a b m' =
     (\<exists>vs fs. vertices m' = vertices m @ vs \<and> length vs = a
        \<and> faces m' = faces m @ fs \<and> length fs = b
        \<and> list_all (face_in_range (length (vertices m) + a)) fs
        \<and> list_all face_distinct fs)"

section \<open>The integer square root\<close>

lemma isqrt_bounds: "isqrt n * isqrt n \<le> n \<and> n < (isqrt n + 1) * (isqrt n + 1)"
proof (induction n rule: isqrt.induct)
  case (1 n)
  show ?case
  proof (cases "n = 0")
    case True
    then show ?thesis by (simp add: isqrt.simps)
  next
    case False
    define s where "s = isqrt (n div 4)"
    from 1 [OF False] have lo: "s * s \<le> n div 4" and hi: "n div 4 < (s + 1) * (s + 1)"
      by (simp_all add: s_def)
    have lo4: "(2 * s) * (2 * s) \<le> n"
    proof -
      have "4 * (s * s) \<le> 4 * (n div 4)" using lo by simp
      also have "\<dots> \<le> n" by simp
      finally show ?thesis by (simp add: algebra_simps)
    qed
    have hi4: "n < (2 * s + 2) * (2 * s + 2)"
    proof -
      have "n div 4 + 1 \<le> (s + 1) * (s + 1)" using hi by simp
      then have "4 * (n div 4 + 1) \<le> 4 * ((s + 1) * (s + 1))" by simp
      moreover have "n < 4 * (n div 4 + 1)" by simp
      ultimately have "n < 4 * ((s + 1) * (s + 1))" by linarith
      then show ?thesis by (simp add: algebra_simps)
    qed
    have eq: "isqrt n = (if (2 * s + 1) * (2 * s + 1) \<le> n then 2 * s + 1 else 2 * s)"
      using False by (subst isqrt.simps) (simp add: s_def Let_def)
    show ?thesis
    proof (cases "(2 * s + 1) * (2 * s + 1) \<le> n")
      case True
      then show ?thesis using eq hi4 by (simp add: algebra_simps)
    next
      case False
      then show ?thesis using eq lo4 by (simp add: algebra_simps)
    qed
  qed
qed

lemma isqrt_mono:
  assumes mn: "m \<le> n"
  shows "isqrt m \<le> isqrt n"
proof (rule ccontr)
  assume "\<not> isqrt m \<le> isqrt n"
  then have le: "isqrt n + 1 \<le> isqrt m" by simp
  have "(isqrt n + 1) * (isqrt n + 1) \<le> isqrt m * isqrt m" using le le by (rule mult_le_mono)
  moreover have "isqrt m * isqrt m \<le> m" using isqrt_bounds [of m] by (rule conjunct1)
  moreover have "n < (isqrt n + 1) * (isqrt n + 1)" using isqrt_bounds [of n] by (rule conjunct2)
  ultimately show False using mn by (meson le_trans not_le)
qed

lemma isqrt_unique:
  assumes lo: "m * m \<le> n" and hi: "n < (m + 1) * (m + 1)"
  shows "isqrt n = m"
proof (rule ccontr)
  assume neq: "isqrt n \<noteq> m"
  have b1: "isqrt n * isqrt n \<le> n" using isqrt_bounds [of n] by (rule conjunct1)
  have b2: "n < (isqrt n + 1) * (isqrt n + 1)" using isqrt_bounds [of n] by (rule conjunct2)
  show False
  proof (cases "isqrt n < m")
    case True
    then have le: "isqrt n + 1 \<le> m" by simp
    have "(isqrt n + 1) * (isqrt n + 1) \<le> m * m" using le le by (rule mult_le_mono)
    with b2 lo show False by (meson le_trans not_le)
  next
    case False
    with neq have le: "m + 1 \<le> isqrt n" by simp
    have "(m + 1) * (m + 1) \<le> isqrt n * isqrt n" using le le by (rule mult_le_mono)
    with b1 hi show False by (meson le_trans not_le)
  qed
qed

lemma isqrt_floor_sqrt:
  assumes "0 \<le> t"
  shows "int (isqrt (nat t div 10)) = \<lfloor>sqrt (real_of_int t / 10)\<rfloor>"
proof -
  define q where "q = nat t div 10"
  define s where "s = isqrt q"
  define a where "a = s * s"
  define b where "b = (s + 1) * (s + 1)"
  have b1: "a \<le> q" unfolding a_def s_def using isqrt_bounds [of q] by (rule conjunct1)
  have b2: "q < b" unfolding b_def s_def using isqrt_bounds [of q] by (rule conjunct2)
  have t1: "10 * a \<le> nat t" using b1 unfolding q_def by linarith
  have t2: "nat t < 10 * b" using b2 unfolding q_def by linarith
  have rt: "real (nat t) = real_of_int t" using assms by simp
  have ra: "real a = (real s)\<^sup>2" by (simp add: a_def power2_eq_square)
  have rb: "real b = (real s + 1)\<^sup>2" by (simp only: b_def power2_eq_square of_nat_mult of_nat_add of_nat_1)
  have "real (10 * a) \<le> real (nat t)" using t1 by (simp only: of_nat_le_iff)
  then have r1: "(real s)\<^sup>2 \<le> real_of_int t / 10" unfolding rt ra [symmetric] by simp
  have "real (nat t) < real (10 * b)" using t2 by (simp only: of_nat_less_iff)
  then have r2: "real_of_int t / 10 < (real s + 1)\<^sup>2" unfolding rt rb [symmetric] by simp
  have "real s \<le> sqrt (real_of_int t / 10)"
    using r1 by (rule real_le_rsqrt)
  moreover have "sqrt (real_of_int t / 10) < real s + 1"
    using r2 by (intro real_less_lsqrt) simp_all
  ultimately have "\<lfloor>sqrt (real_of_int t / 10)\<rfloor> = int s"
    by (intro floor_unique) simp_all
  then show ?thesis by (simp add: s_def q_def)
qed

section \<open>Division, square root and truncation in double precision\<close>

text \<open>
  Three facts about \<open>int_sqrt_div10\<close> are needed for the generators: below \<open>10\<^sup>1\<^sup>3\<close> the
  two roundings do not show after the truncation (\<open>int_sqrt_div10_exact\<close>); from \<open>10\<^sup>1\<^sup>3\<close>
  on the result is at least a power of two \<open>P \<ge> 2\<^sup>1\<^sup>9\<close> with \<open>t < 40 P\<^sup>2\<close> (\<open>large_lower\<close>),
  which is enough to see that the arrow patches alone exceed the target; and the
  division overflows exactly from \<open>10 (2\<^sup>1\<^sup>0\<^sup>2\<^sup>4 - 2\<^sup>9\<^sup>7\<^sup>0)\<close> on (\<open>overflows_iff\<close>).
\<close>

lemma bit_length_bounds:
  "0 < n \<Longrightarrow> \<exists>l. bit_length n = Suc l \<and> 2 ^ l \<le> n \<and> n < 2 ^ Suc l"
proof (induction n rule: bit_length.induct)
  case (1 n)
  show ?case
  proof (cases "n div 2 = 0")
    case True
    with 1(2) have "n = 1" by (simp add: div_eq_0_iff)
    then have "bit_length n = Suc 0"
      by (simp add: bit_length.simps [of "Suc 0"] bit_length.simps [of 0])
    then show ?thesis using \<open>n = 1\<close> by simp
  next
    case False
    then have pos: "0 < n div 2" by simp
    from 1(2) have n0: "n \<noteq> 0" by simp
    from 1(1) [OF n0 pos] obtain l where l: "bit_length (n div 2) = Suc l"
      "2 ^ l \<le> n div 2" "n div 2 < 2 ^ Suc l"
      by blast
    have "bit_length n = Suc (Suc l)"
      using n0 l(1) by (subst bit_length.simps) simp
    moreover have "2 ^ Suc l \<le> n" using l(2) by simp
    moreover have "n < 2 ^ Suc (Suc l)" using l(3) by simp
    ultimately show ?thesis by blast
  qed
qed

lemma bit_length_unique:
  assumes "2 ^ l \<le> n" and "n < 2 ^ Suc l"
  shows "bit_length n = Suc l"
proof -
  have "0 < n" using assms(1) by (metis gr0I not_le zero_less_numeral zero_less_power)
  from bit_length_bounds [OF this] obtain k where k: "bit_length n = Suc k"
    "2 ^ k \<le> n" "n < 2 ^ Suc k"
    by blast
  have "(2::nat) ^ l < 2 ^ Suc k" using assms(1) k(3) by (rule le_less_trans)
  then have "l < Suc k" by (simp only: power_strict_increasing_iff [of 2] one_less_numeral_iff num.distinct semiring_norm)
  moreover have "(2::nat) ^ k < 2 ^ Suc l" using k(2) assms(2) by (rule le_less_trans)
  then have "k < Suc l" by (simp only: power_strict_increasing_iff [of 2] one_less_numeral_iff num.distinct semiring_norm)
  ultimately show ?thesis using k(1) by simp
qed

lemma round_half_even_range:
  assumes "0 < b"
  shows "a div b \<le> round_half_even a b" and "round_half_even a b \<le> a div b + 1"
    and "a mod b = 0 \<Longrightarrow> round_half_even a b = a div b"
proof -
  show "a div b \<le> round_half_even a b"
    by (simp add: round_half_even_def Let_def)
  have "a div b mod 2 \<le> 1" by simp
  then show "round_half_even a b \<le> a div b + 1"
    by (simp add: round_half_even_def Let_def)
  show "a mod b = 0 \<Longrightarrow> round_half_even a b = a div b"
    using assms by (simp add: round_half_even_def Let_def)
qed

lemma round_half_even_ge:
  assumes "0 < b" and "d * b \<le> a"
  shows "d \<le> round_half_even a b"
proof -
  have "d \<le> a div b"
    using assms by (simp add: less_eq_div_iff_mult_less_eq)
  then show ?thesis
    using round_half_even_range(1) [OF assms(1), of a] by (rule le_trans)
qed

lemma round_half_even_le:
  assumes "0 < b" and "a \<le> d * b"
  shows "round_half_even a b \<le> d"
proof (cases "a = d * b")
  case True
  then show ?thesis
    using round_half_even_range(3) [OF assms(1), of a] assms(1) by simp
next
  case False
  with assms(2) have "a < d * b" by simp
  then have "a div b < d"
    using assms(1) by (simp add: div_less_iff_less_mult)
  then show ?thesis
    using round_half_even_range(2) [OF assms(1), of a] by simp
qed

lemma round_half_even_scale:
  assumes "0 < c"
  shows "round_half_even (a * c) (b * c) = round_half_even a b"
proof -
  have d: "(a * c) div (b * c) = a div b"
    using assms by simp
  have m: "(a * c) mod (b * c) = (a mod b) * c"
    by (simp add: mult_mod_left mult.commute)
  have 1: "(2 * (a mod b * c) < b * c) = (2 * (a mod b) < b)"
    using assms by (simp add: mult.assoc [symmetric])
  have 2: "(b * c < 2 * (a mod b * c)) = (b < 2 * (a mod b))"
    using assms by (simp add: mult.assoc [symmetric])
  show ?thesis
    unfolding round_half_even_def Let_def d m 1 2 ..
qed

lemma true_div10_props:
  assumes "0 < t"
  shows "\<exists>m e. true_div10 t = (m, e)
       \<and> m = round_half_even (t * 2 ^ 1074) (10 * 2 ^ e)
       \<and> 10 * 2 ^ (52 + e) \<le> t * 2 ^ 1074 \<and> t * 2 ^ 1074 < 10 * 2 ^ (53 + e)
       \<and> 2 ^ 52 \<le> m \<and> m \<le> 2 ^ 53"
proof -
  obtain l where l: "bit_length t = Suc l" "2 ^ l \<le> t" "t < 2 ^ Suc l"
    using bit_length_bounds [OF assms] by blast
  define e where "e = (if 10 * 2 ^ Suc l \<le> 16 * t then Suc l + 1018 else Suc l + 1017)"
  define m where "m = round_half_even (t * 2 ^ 1074) (10 * 2 ^ e)"
  have td: "true_div10 t = (m, e)"
    by (simp only: true_div10_def Let_def l(1) e_def m_def)
  define c :: nat where "c = 2 ^ 1070"
  define A where "A = 2 ^ l * c"
  define B where "B = t * c"
  have cpos: "0 < c" by (simp add: c_def)
  have c16: "(2::nat) ^ 1074 = 16 * c"
  proof -
    have "(2::nat) ^ 1074 = 2 ^ (4 + 1070)" by simp
    also have "\<dots> = 2 ^ 4 * 2 ^ 1070" by (rule power_add)
    finally show ?thesis by (simp add: c_def)
  qed
  have tB: "t * 2 ^ 1074 = 16 * B"
    by (simp only: c16 B_def mult_ac)
  have AB: "A \<le> B" "B < 2 * A"
  proof -
    show "A \<le> B" unfolding A_def B_def using l(2) by (rule mult_le_mono1)
    have "t * c < 2 ^ Suc l * c" using l(3) cpos by (simp only: mult_less_cancel2 simp_thms)
    then show "B < 2 * A" by (simp add: A_def B_def mult_ac)
  qed
  have key: "10 * 2 ^ (52 + e) \<le> 16 * B \<and> 16 * B < 10 * 2 ^ (53 + e)"
  proof (cases "10 * 2 ^ Suc l \<le> 16 * t")
    case True
    then have e: "e = Suc l + 1018" by (simp add: e_def)
    have "52 + e = Suc l + 1070" "53 + e = Suc (Suc l) + 1070" by (simp_all add: e)
    then have p: "(2::nat) ^ (52 + e) = 2 * A" "(2::nat) ^ (53 + e) = 4 * A"
      by (simp_all only: power_add power_Suc A_def c_def)
    have "10 * 2 ^ Suc l * c \<le> 16 * t * c" using True by (rule mult_le_mono1)
    then have "20 * A \<le> 16 * B" by (simp add: A_def B_def mult_ac)
    then show ?thesis unfolding p using AB by simp
  next
    case False
    then have e: "e = Suc l + 1017" by (simp add: e_def)
    have "52 + e = l + 1070" "53 + e = Suc l + 1070" by (simp_all add: e)
    then have p: "(2::nat) ^ (52 + e) = A" "(2::nat) ^ (53 + e) = 2 * A"
      by (simp_all only: power_add power_Suc A_def c_def)
    from False have "16 * t < 10 * 2 ^ Suc l" by simp
    then have "16 * t * c < 10 * 2 ^ Suc l * c" using cpos by (simp only: mult_less_cancel2 simp_thms)
    then have "16 * B < 20 * A" by (simp add: A_def B_def mult_ac)
    then show ?thesis unfolding p using AB by simp
  qed
  have b: "0 < 10 * (2::nat) ^ e" by simp
  have p52: "(2::nat) ^ 52 * (10 * 2 ^ e) = 10 * 2 ^ (52 + e)"
    and p53: "(2::nat) ^ 53 * (10 * 2 ^ e) = 10 * 2 ^ (53 + e)"
    by (simp_all only: power_add mult_ac)
  have lo: "2 ^ 52 \<le> m"
    unfolding m_def
    by (rule round_half_even_ge [OF b]) (simp only: p52 tB key)
  have hi: "m \<le> 2 ^ 53"
    unfolding m_def
    by (rule round_half_even_le [OF b]) (use key in \<open>simp only: p53 tB less_imp_le\<close>)
  show ?thesis
    using td m_def key lo hi unfolding tB by blast
qed

lemma sqrt_round_ge:
  assumes "d * d \<le> n"
  shows "d \<le> (if isqrt n * isqrt n + isqrt n < n then isqrt n + 1 else isqrt n)"
proof -
  have "d \<le> isqrt n"
  proof (rule ccontr)
    assume "\<not> d \<le> isqrt n"
    then have le: "isqrt n + 1 \<le> d" by simp
    have "(isqrt n + 1) * (isqrt n + 1) \<le> d * d" using le le by (rule mult_le_mono)
    moreover have "n < (isqrt n + 1) * (isqrt n + 1)" using isqrt_bounds [of n] by (rule conjunct2)
    ultimately show False using assms by (meson le_trans not_le)
  qed
  then show ?thesis by simp
qed

lemma sqrt_round_le:
  assumes "n \<le> d * d"
  shows "(if isqrt n * isqrt n + isqrt n < n then isqrt n + 1 else isqrt n) \<le> d"
proof -
  have b: "isqrt n * isqrt n \<le> n" using isqrt_bounds [of n] by (rule conjunct1)
  have s: "isqrt n \<le> d"
  proof (rule ccontr)
    assume "\<not> isqrt n \<le> d"
    then have le: "d + 1 \<le> isqrt n" by simp
    have "(d + 1) * (d + 1) \<le> isqrt n * isqrt n" using le le by (rule mult_le_mono)
    then have "(d + 1) * (d + 1) \<le> d * d" using b assms by (meson le_trans)
    then show False by (simp add: algebra_simps)
  qed
  show ?thesis
  proof (cases "isqrt n * isqrt n + isqrt n < n")
    case True
    have "isqrt n \<noteq> d"
    proof
      assume "isqrt n = d"
      with True assms show False by simp
    qed
    with s True show ?thesis by simp
  next
    case False
    with s show ?thesis by simp
  qed
qed

lemma exact_core:
  assumes g16: "g = 16 * h" and hpos: "0 < h"
    and lo: "10 * (n * n) \<le> t" and hi: "t < 10 * ((n + 1) * (n + 1))"
    and m: "m = round_half_even (t * g) 10"
    and G: "32 * (n + 1) \<le> G"
    and N: "N * g = m * (G * G)"
  shows "(n * G) * (n * G) \<le> N" and "N \<le> ((n + 1) * G - 1) * ((n + 1) * G - 1)"
proof -
  have gpos: "0 < g" using g16 hpos by simp
  define Q where "Q = (n + 1) * (n + 1) * g"
  define d where "d = Q - h"
  have hQ: "h \<le> Q"
  proof -
    have "h \<le> g" using g16 by simp
    also have "g \<le> Q" unfolding Q_def by simp
    finally show ?thesis .
  qed
  then have dh: "d + h = Q" by (simp add: d_def)
  have m_lo: "n * n * g \<le> m"
    unfolding m
  proof (rule round_half_even_ge)
    have "10 * (n * n) * g \<le> t * g" using lo by (rule mult_le_mono1)
    then show "n * n * g * 10 \<le> t * g" by (simp add: mult_ac)
  qed simp
  have m_hi: "m \<le> d"
    unfolding m
  proof (rule round_half_even_le)
    have "t + 1 \<le> 10 * ((n + 1) * (n + 1))" using hi by simp
    then have "(t + 1) * g \<le> 10 * ((n + 1) * (n + 1)) * g" by (rule mult_le_mono1)
    then have "t * g + g \<le> 10 * Q" by (simp add: Q_def algebra_simps)
    then have "t * g + 10 * h \<le> 10 * Q" using g16 by simp
    then show "t * g \<le> d * 10" using dh by simp
  qed simp
  have "n * G * (n * G) * g = n * n * g * (G * G)" by (simp add: mult_ac)
  also have "\<dots> \<le> m * (G * G)" using m_lo by (rule mult_le_mono1)
  finally have "n * G * (n * G) * g \<le> N * g" by (simp only: N)
  then show "(n * G) * (n * G) \<le> N" using gpos by simp
  define X where "X = (n + 1) * G"
  define D where "D = X - 1"
  have Gpos: "0 < G" using G by simp
  have Xpos: "1 \<le> X" unfolding X_def using Gpos by simp
  then have XD: "X = D + 1" by (simp add: D_def)
  have sq: "D * D + 2 * X = X * X + 1" unfolding XD by (simp add: algebra_simps)
  have "(D * D + 2 * X) * g = (X * X + 1) * g" by (simp only: sq)
  then have e1: "D * D * g + 2 * (X * g) = X * X * g + g" by (simp add: algebra_simps)
  have "k * G * (k * G) * g = k * k * g * (G * G)" for k :: nat by (simp add: mult_ac)
  then have e2: "X * X * g = Q * (G * G)" unfolding X_def Q_def .
  have "(d + h) * (G * G) = Q * (G * G)" by (simp only: dh)
  then have e3: "d * (G * G) + h * (G * G) = Q * (G * G)" by (simp add: algebra_simps)
  have "32 * (n + 1) * (h * G) \<le> G * (h * G)" using G by (rule mult_le_mono1)
  moreover have "2 * (k * G * (16 * h)) = 32 * k * (h * G)" for k :: nat by (simp add: mult_ac)
  then have "2 * (X * g) = 32 * (n + 1) * (h * G)" unfolding X_def g16 .
  moreover have "G * (h * G) = h * (G * G)" by (simp add: mult_ac)
  ultimately have e4: "2 * (X * g) \<le> h * (G * G)" by simp
  have "d * (G * G) \<le> D * D * g" using e1 e2 e3 e4 by linarith
  moreover have "N * g \<le> d * (G * G)" unfolding N using m_hi by (rule mult_le_mono1)
  ultimately have "N * g \<le> D * D * g" by (rule le_trans [rotated])
  then have "N \<le> D * D" using gpos by simp
  then show "N \<le> ((n + 1) * G - 1) * ((n + 1) * G - 1)" by (simp only: D_def X_def)
qed

lemma div_between:
  fixes n G r :: nat
  assumes "n * G \<le> r" and "r < (n + 1) * G"
  shows "r div G = n"
proof -
  have "0 < G" using assms by (cases "G = 0") simp_all
  have "n \<le> r div G" using assms(1) \<open>0 < G\<close> by (simp add: less_eq_div_iff_mult_less_eq)
  moreover have "r div G < n + 1" using assms(2) \<open>0 < G\<close> by (simp add: div_less_iff_less_mult)
  ultimately show ?thesis by simp
qed

lemma isqrt_div10_bounds:
  "10 * (isqrt (u div 10) * isqrt (u div 10)) \<le> u
   \<and> u < 10 * ((isqrt (u div 10) + 1) * (isqrt (u div 10) + 1))"
proof -
  let ?n = "isqrt (u div 10)"
  have 1: "?n * ?n \<le> u div 10" using isqrt_bounds [of "u div 10"] by (rule conjunct1)
  have 2: "u div 10 < (?n + 1) * (?n + 1)" using isqrt_bounds [of "u div 10"] by (rule conjunct2)
  have "10 * (?n * ?n) \<le> 10 * (u div 10)" using 1 by simp
  also have "\<dots> \<le> u" by simp
  finally have a: "10 * (?n * ?n) \<le> u" .
  have "u div 10 + 1 \<le> (?n + 1) * (?n + 1)" using 2 by simp
  then have "10 * (u div 10 + 1) \<le> 10 * ((?n + 1) * (?n + 1))" by simp
  moreover have "u < 10 * (u div 10 + 1)" by simp
  ultimately have "u < 10 * ((?n + 1) * (?n + 1))" by (rule less_le_trans [rotated])
  with a show ?thesis by simp
qed

lemma le_pred_less: "r \<le> X - 1 \<Longrightarrow> 0 < X \<Longrightarrow> r < (X::nat)"
  by simp

lemma exact_pos:
  assumes upos: "0 < u" and ub: "u < 10 ^ 13"
  shows "\<not> overflows (true_div10 u)
       \<and> int_of_double (math_sqrt (true_div10 u)) = isqrt (u div 10)"
proof -
  let ?n = "isqrt (u div 10)"
  obtain m e where td: "true_div10 u = (m, e)"
    and m: "m = round_half_even (u * 2 ^ 1074) (10 * 2 ^ e)"
    and lo: "10 * 2 ^ (52 + e) \<le> u * 2 ^ 1074"
    and m53: "m \<le> 2 ^ 53"
    using true_div10_props [OF upos] by blast
  have e: "e \<le> 1061"
  proof -
    have "u * 2 ^ 1074 < 10 ^ 13 * 2 ^ 1074"
      using ub by (rule mult_strict_right_mono) simp
    also have "(10::nat) ^ 13 * 2 ^ 1074 \<le> 10 * 2 ^ 1114" by simp
    finally have A: "u * 2 ^ 1074 < 10 * 2 ^ 1114" .
    have "10 * (2::nat) ^ (52 + e) < 10 * 2 ^ 1114" using lo A by (rule le_less_trans)
    then have "(2::nat) ^ (52 + e) < 2 ^ 1114" by (simp only: mult_less_cancel1)
    then have "52 + e < 1114" by (rule power_less_imp_less_exp [rotated]) simp
    then show ?thesis by simp
  qed
  have novf: "\<not> overflows (true_div10 u)"
  proof -
    have "m * 2 ^ e \<le> 2 ^ 53 * 2 ^ e" using m53 by (rule mult_le_mono1)
    also have "\<dots> = 2 ^ (53 + e)" by (simp only: power_add)
    also have "\<dots> < 2 ^ 2098" by (rule power_strict_increasing) (use e in simp_all)
    finally show ?thesis by (simp only: td overflows_def prod.case not_le)
  qed
  obtain a where a: "e + (a + 13) = 1074"
  proof
    show "e + ((1061 - e) + 13) = 1074" using e by simp
  qed
  define g :: nat where "g = 2 ^ (a + 13)"
  define h :: nat where "h = 2 ^ (a + 9)"
  have p1074: "(2::nat) ^ 1074 = g * 2 ^ e"
    by (simp only: g_def power_add [symmetric] a add.commute)
  have g16: "g = 16 * h"
  proof -
    have "a + 13 = 4 + (a + 9)" by simp
    then have "g = 2 ^ 4 * 2 ^ (a + 9)" by (simp only: g_def power_add)
    then show ?thesis by (simp add: h_def)
  qed
  have hpos: "0 < h" by (simp add: h_def)
  have m': "m = round_half_even (u * g) 10"
  proof -
    have "u * 2 ^ 1074 = (u * g) * 2 ^ e" by (simp only: p1074 mult.assoc)
    then show ?thesis unfolding m by (simp only: round_half_even_scale zero_less_numeral zero_less_power)
  qed
  have nb: "?n < 10 ^ 6"
  proof (rule ccontr)
    assume "\<not> ?n < 10 ^ 6"
    then have le: "(10::nat) ^ 6 \<le> ?n" by simp
    have "(10::nat) ^ 6 * 10 ^ 6 \<le> ?n * ?n" using le le by (rule mult_le_mono)
    moreover have "10 * (?n * ?n) \<le> u" using isqrt_div10_bounds [of u] by (rule conjunct1)
    ultimately have "10 * ((10::nat) ^ 6 * 10 ^ 6) \<le> u" by (meson le_trans mult_le_mono2)
    with ub show False by simp
  qed
  have G_big: "32 * (?n + 1) \<le> 2 ^ c" if "33 \<le> c" for c :: nat
  proof -
    have "32 * (?n + 1) \<le> (2::nat) ^ 33" using nb by simp
    also have "(2::nat) ^ 33 \<le> 2 ^ c" using that by (rule power_increasing) simp
    finally show ?thesis .
  qed
  have main: "int_of_double (math_sqrt (m, e)) = ?n"
  proof (cases "even e")
    case True
    then obtain j where j: "e = 2 * j" by (rule evenE)
    obtain c where c: "j + 511 + c = 1074" and c33: "33 \<le> c"
    proof
      show "j + 511 + (563 - j) = 1074" using e j by simp
      show "33 \<le> 563 - j" using e j by simp
    qed
    define G :: nat where "G = 2 ^ c"
    define N where "N = m * 2 ^ 52"
    define r where "r = (if isqrt N * isqrt N + isqrt N < N then isqrt N + 1 else isqrt N)"
    have ms: "math_sqrt (m, e) = (r, j + 511)"
      using True by (simp add: math_sqrt_def Let_def N_def r_def j)
    have "a + 13 + 52 = c + c" using a c j by simp
    then have gG: "2 ^ 52 * g = G * G"
      by (simp only: g_def G_def power_add [symmetric] add.commute)
    have Ng: "N * g = m * (G * G)"
      by (simp only: N_def gG [symmetric] mult.assoc)
    have p: "(2::nat) ^ 1074 = 2 ^ (j + 511) * G"
      by (simp only: G_def power_add [symmetric] c)
    have iod: "int_of_double (r, j + 511) = r div G"
      by (simp only: int_of_double_def prod.case p) simp
    have b1: "(?n * G) * (?n * G) \<le> N" and b2: "N \<le> ((?n + 1) * G - 1) * ((?n + 1) * G - 1)"
      using exact_core [OF g16 hpos conjunct1 [OF isqrt_div10_bounds]
          conjunct2 [OF isqrt_div10_bounds] m' _ Ng, of ] G_big [OF c33]
      unfolding G_def by blast+
    have "?n * G \<le> r" unfolding r_def using b1 by (rule sqrt_round_ge)
    moreover have "r \<le> (?n + 1) * G - 1" unfolding r_def using b2 by (rule sqrt_round_le)
    then have "r < (?n + 1) * G" by (rule le_pred_less) (simp add: G_def)
    ultimately have "r div G = ?n" by (rule div_between)
    then show ?thesis by (simp only: ms iod)
  next
    case False
    then obtain j where j: "e = 2 * j + 1" by (rule oddE)
    obtain c where c: "j + 511 + c = 1074" and c33: "33 \<le> c"
    proof
      show "j + 511 + (563 - j) = 1074" using e j by simp
      show "33 \<le> 563 - j" using e j by simp
    qed
    define G :: nat where "G = 2 ^ c"
    define N where "N = 2 * m * 2 ^ 52"
    define r where "r = (if isqrt N * isqrt N + isqrt N < N then isqrt N + 1 else isqrt N)"
    have ms: "math_sqrt (m, e) = (r, j + 511)"
      using False by (simp add: math_sqrt_def Let_def N_def r_def j)
    have "a + 13 + 53 = c + c" using a c j by simp
    then have gG: "2 ^ 53 * g = G * G"
      by (simp only: g_def G_def power_add [symmetric] add.commute)
    have "N = m * 2 ^ 53" by (simp add: N_def)
    then have Ng: "N * g = m * (G * G)"
      by (simp only: gG [symmetric] mult.assoc)
    have p: "(2::nat) ^ 1074 = 2 ^ (j + 511) * G"
      by (simp only: G_def power_add [symmetric] c)
    have iod: "int_of_double (r, j + 511) = r div G"
      by (simp only: int_of_double_def prod.case p) simp
    have b1: "(?n * G) * (?n * G) \<le> N" and b2: "N \<le> ((?n + 1) * G - 1) * ((?n + 1) * G - 1)"
      using exact_core [OF g16 hpos conjunct1 [OF isqrt_div10_bounds]
          conjunct2 [OF isqrt_div10_bounds] m' _ Ng, of ] G_big [OF c33]
      unfolding G_def by blast+
    have "?n * G \<le> r" unfolding r_def using b1 by (rule sqrt_round_ge)
    moreover have "r \<le> (?n + 1) * G - 1" unfolding r_def using b2 by (rule sqrt_round_le)
    then have "r < (?n + 1) * G" by (rule le_pred_less) (simp add: G_def)
    ultimately have "r div G = ?n" by (rule div_between)
    then show ?thesis by (simp only: ms iod)
  qed
  show ?thesis using novf main by (simp only: td simp_thms)
qed

lemma true_div10_0: "true_div10 0 = (0, 1017)"
  by (simp add: true_div10_def round_half_even_def bit_length.simps [of 0])

lemma int_sqrt_div10_0: "int_sqrt_div10 0 = Inr 0"
proof -
  have "math_sqrt (0, 1017) = (0, 1019)"
    by (simp add: math_sqrt_def isqrt.simps [of 0])
  then show ?thesis
    by (simp add: int_sqrt_div10_def true_div10_0 overflows_def int_of_double_def)
qed

lemma int_sqrt_div10_exact:
  assumes "0 \<le> t" and "t < 10 ^ 13"
  shows "int_sqrt_div10 t = Inr (isqrt (nat t div 10))"
proof (cases "t = 0")
  case True
  then show ?thesis by (simp add: int_sqrt_div10_0 isqrt.simps [of 0])
next
  case False
  with assms have u: "0 < nat t" "nat t < 10 ^ 13" by simp_all
  have abs: "nat \<bar>t\<bar> = nat t" using assms(1) by simp
  show ?thesis
    using exact_pos [OF u] assms(1)
    by (simp only: int_sqrt_div10_def Let_def abs if_False not_less [symmetric] simp_thms)
qed

lemma no_overflow_below:
  assumes "u < 10 * 2 ^ 1023"
  shows "\<not> overflows (true_div10 u)"
proof (cases "u = 0")
  case True
  then show ?thesis by (simp add: true_div10_0 overflows_def)
next
  case False
  then have upos: "0 < u" by simp
  obtain m e where td: "true_div10 u = (m, e)"
    and lo: "10 * 2 ^ (52 + e) \<le> u * 2 ^ 1074"
    and m53: "m \<le> 2 ^ 53"
    using true_div10_props [OF upos] by blast
  have e: "e \<le> 2044"
  proof -
    have "u * 2 ^ 1074 < (10 * 2 ^ 1023) * 2 ^ 1074"
      using assms by (rule mult_strict_right_mono) simp
    also have "((10::nat) * 2 ^ 1023) * 2 ^ 1074 = 10 * 2 ^ 2097" by simp
    finally have A: "u * 2 ^ 1074 < 10 * 2 ^ 2097" .
    have "10 * (2::nat) ^ (52 + e) < 10 * 2 ^ 2097" using lo A by (rule le_less_trans)
    then have "(2::nat) ^ (52 + e) < 2 ^ 2097" by (simp only: mult_less_cancel1)
    then have "52 + e < 2097" by (rule power_less_imp_less_exp [rotated]) simp
    then show ?thesis by simp
  qed
  have "m * 2 ^ e \<le> 2 ^ 53 * 2 ^ e" using m53 by (rule mult_le_mono1)
  also have "\<dots> = 2 ^ (53 + e)" by (simp only: power_add)
  also have "\<dots> < 2 ^ 2098" by (rule power_strict_increasing) (use e in simp_all)
  finally show ?thesis by (simp only: td overflows_def prod.case not_le)
qed

lemma overflow_above:
  assumes "10 * 2 ^ 1024 \<le> u"
  shows "overflows (true_div10 u)"
proof -
  have upos: "0 < u" using assms by simp
  obtain m e where td: "true_div10 u = (m, e)"
    and hi: "u * 2 ^ 1074 < 10 * 2 ^ (53 + e)"
    and m52: "2 ^ 52 \<le> m"
    using true_div10_props [OF upos] by blast
  have e: "2046 \<le> e"
  proof -
    have "(10 * 2 ^ 1024) * 2 ^ 1074 \<le> u * 2 ^ 1074"
      using assms by (rule mult_le_mono1)
    moreover have "((10::nat) * 2 ^ 1024) * 2 ^ 1074 = 10 * 2 ^ 2098" by simp
    ultimately have A: "10 * 2 ^ 2098 \<le> u * 2 ^ 1074" by (simp only:)
    have "10 * (2::nat) ^ 2098 < 10 * 2 ^ (53 + e)" using A hi by (rule le_less_trans)
    then have "(2::nat) ^ 2098 < 2 ^ (53 + e)" by (simp only: mult_less_cancel1)
    then have "2098 < 53 + e" by (rule power_less_imp_less_exp [rotated]) simp
    then show ?thesis by simp
  qed
  have "(2::nat) ^ 2098 = 2 ^ 52 * 2 ^ 2046" by (simp only: power_add [symmetric]) simp
  also have "\<dots> \<le> 2 ^ 52 * 2 ^ e"
    by (rule mult_le_mono2) (rule power_increasing [OF e], simp)
  also have "\<dots> \<le> m * 2 ^ e" using m52 by (rule mult_le_mono1)
  finally show ?thesis by (simp only: td overflows_def prod.case)
qed

lemma large_lower:
  assumes big: "10 ^ 13 \<le> u"
  shows "\<exists>p. 19 \<le> p \<and> 2 ^ p \<le> int_of_double (math_sqrt (true_div10 u))
             \<and> u < 40 * (2 ^ p * 2 ^ p)"
proof -
  have upos: "0 < u" using big by simp
  obtain m e where td: "true_div10 u = (m, e)"
    and hi: "u * 2 ^ 1074 < 10 * 2 ^ (53 + e)"
    and m52: "2 ^ 52 \<le> m"
    using true_div10_props [OF upos] by blast
  have e: "1061 \<le> e"
  proof -
    have "(10::nat) * 2 ^ 1113 \<le> 10 ^ 13 * 2 ^ 1074" by simp
    also have "\<dots> \<le> u * 2 ^ 1074" using big by (rule mult_le_mono1)
    finally have A: "10 * 2 ^ 1113 \<le> u * 2 ^ 1074" .
    have "10 * (2::nat) ^ 1113 < 10 * 2 ^ (53 + e)" using A hi by (rule le_less_trans)
    then have "(2::nat) ^ 1113 < 2 ^ (53 + e)" by (simp only: mult_less_cancel1)
    then have "1113 < 53 + e" by (rule power_less_imp_less_exp [rotated]) simp
    then show ?thesis by simp
  qed
  have core: "\<exists>p. 19 \<le> p \<and> 2 ^ p \<le> int_of_double (r, j + 511) \<and> u < 40 * (2 ^ p * 2 ^ p)"
    if j: "530 \<le> j" and ej: "e \<le> 2 * j + 1" and r: "2 ^ 52 \<le> r" for j r :: nat
  proof -
    obtain p where p: "j = p + 511" and p19: "19 \<le> p"
    proof
      show "j = (j - 511) + 511" using j by simp
      show "19 \<le> j - 511" using j by simp
    qed
    have pw: "(2::nat) ^ 52 * 2 ^ (j + 511) = 2 ^ p * 2 ^ 1074"
    proof -
      have "52 + (j + 511) = p + 1074" using p by simp
      then show ?thesis by (simp only: power_add [symmetric])
    qed
    have "2 ^ p * 2 ^ 1074 \<le> r * 2 ^ (j + 511)"
      unfolding pw [symmetric] using r by (rule mult_le_mono1)
    then have "(2 ^ p * 2 ^ 1074) div 2 ^ 1074 \<le> (r * 2 ^ (j + 511)) div 2 ^ 1074"
      by (rule div_le_mono)
    moreover have "((2::nat) ^ p * 2 ^ 1074) div 2 ^ 1074 = 2 ^ p"
      by (rule div_mult_self_is_m) simp
    ultimately have b: "2 ^ p \<le> int_of_double (r, j + 511)"
      by (simp only: int_of_double_def prod.case)
    have "(2::nat) ^ (53 + e) \<le> 2 ^ (53 + (2 * j + 1))"
      by (rule power_increasing) (use ej in simp_all)
    also have "53 + (2 * j + 1) = 2 + (p + p) + 1074" using p by simp
    finally have "(2::nat) ^ (53 + e) \<le> 2 ^ 2 * (2 ^ p * 2 ^ p) * 2 ^ 1074"
      by (simp only: power_add)
    then have "10 * (2::nat) ^ (53 + e) \<le> 10 * (2 ^ 2 * (2 ^ p * 2 ^ p) * 2 ^ 1074)"
      by (rule mult_le_mono2)
    with hi have "u * 2 ^ 1074 < 10 * (2 ^ 2 * (2 ^ p * 2 ^ p) * 2 ^ 1074)"
      by (rule less_le_trans)
    also have "10 * (2 ^ 2 * (2 ^ p * 2 ^ p) * 2 ^ 1074) = (40 * (2 ^ p * 2 ^ p)) * (2::nat) ^ 1074"
      by (simp only: mult.assoc [symmetric]) simp
    finally have "u < 40 * (2 ^ p * 2 ^ p)" by (simp only: mult_less_cancel2)
    with p19 b show ?thesis by blast
  qed
  show ?thesis
  proof (cases "even e")
    case True
    then obtain j where j: "e = 2 * j" by (rule evenE)
    define N where "N = m * 2 ^ 52"
    define r where "r = (if isqrt N * isqrt N + isqrt N < N then isqrt N + 1 else isqrt N)"
    have ms: "math_sqrt (m, e) = (r, j + 511)"
      using True by (simp add: math_sqrt_def Let_def N_def r_def j)
    have "(2::nat) ^ 52 * 2 ^ 52 \<le> N" unfolding N_def using m52 by (rule mult_le_mono1)
    then have "2 ^ 52 \<le> r" unfolding r_def by (rule sqrt_round_ge)
    moreover have "530 \<le> j" using e j by simp
    moreover have "e \<le> 2 * j + 1" using j by simp
    ultimately show ?thesis unfolding td ms by (rule core [rotated 2])
  next
    case False
    then obtain j where j: "e = 2 * j + 1" by (rule oddE)
    define N where "N = 2 * m * 2 ^ 52"
    define r where "r = (if isqrt N * isqrt N + isqrt N < N then isqrt N + 1 else isqrt N)"
    have ms: "math_sqrt (m, e) = (r, j + 511)"
      using False by (simp add: math_sqrt_def Let_def N_def r_def j)
    have "(2::nat) ^ 52 * 2 ^ 52 \<le> m * 2 ^ 52" using m52 by (rule mult_le_mono1)
    also have "\<dots> \<le> N" by (simp add: N_def)
    finally have "2 ^ 52 \<le> r" unfolding r_def by (rule sqrt_round_ge)
    moreover have "530 \<le> j" using e j by simp
    moreover have "e \<le> 2 * j + 1" using j by simp
    ultimately show ?thesis unfolding td ms by (rule core [rotated 2])
  qed
qed

lemma cubic_bound:
  assumes p: "19 \<le> p" and b: "2 ^ p \<le> (b::nat)" and u: "(u::nat) < 40 * (2 ^ p * 2 ^ p)"
  shows "u \<le> 2 * (b div 10) * ((b div 20) * (b div 20))"
proof -
  define P :: nat where "P = 2 ^ p"
  define q where "q = P div 20"
  have P19: "2 ^ 19 \<le> P" unfolding P_def using p by (rule power_increasing) simp
  have q_lo: "26214 \<le> q"
  proof -
    have "(2::nat) ^ 19 div 20 \<le> P div 20" using P19 by (rule div_le_mono)
    then show ?thesis by (simp add: q_def)
  qed
  have Pq: "P < 20 * (q + 1)" unfolding q_def by simp
  have q1: "q + 1 \<le> 2 * q" using q_lo by simp
  have "P * P \<le> (20 * (q + 1)) * (20 * (q + 1))"
    using Pq by (intro mult_le_mono less_imp_le)
  also have "\<dots> \<le> (20 * (2 * q)) * (20 * (2 * q))"
    using q1 by (intro mult_le_mono le_refl)
  also have "\<dots> = 1600 * (q * q)" by simp
  finally have PP: "P * P \<le> 1600 * (q * q)" .
  have "40 * (P * P) \<le> 40 * (1600 * (q * q))" using PP by (rule mult_le_mono2)
  also have "\<dots> = 64000 * (q * q)" by simp
  also have "\<dots> \<le> (4 * q) * (q * q)"
    by (rule mult_le_mono1) (use q_lo in simp)
  finally have A: "40 * (P * P) \<le> (2 * (2 * q)) * (q * q)" by simp
  have qb: "q \<le> b div 20" unfolding q_def using b [folded P_def] by (rule div_le_mono)
  have "20 * q \<le> P" unfolding q_def by simp
  then have "20 * q \<le> b" using b [folded P_def] by (rule le_trans)
  then have "(20 * q) div 10 \<le> b div 10" by (rule div_le_mono)
  then have q2: "2 * q \<le> b div 10" by simp
  have "(2 * (2 * q)) * (q * q) \<le> (2 * (b div 10)) * ((b div 20) * (b div 20))"
    using q2 qb by (intro mult_le_mono le_refl)
  with A have "40 * (P * P) \<le> (2 * (b div 10)) * ((b div 20) * (b div 20))" by (rule le_trans)
  with u [folded P_def] show ?thesis by (meson less_imp_le le_trans)
qed

lemma round_half_even_ge_half:
  assumes b: "0 < b" and d: "even d" and h: "(2 * d - 1) * b \<le> 2 * a"
  shows "d \<le> round_half_even a b"
proof (cases "d \<le> a div b")
  case True
  then show ?thesis using round_half_even_range(1) [OF b, of a] by (rule le_trans)
next
  case False
  define q where "q = a div b"
  define r where "r = a mod b"
  have a: "a = q * b + r" by (simp add: q_def r_def)
  have rb: "r < b" using b by (simp add: r_def)
  from False have "q < d" by (simp add: q_def)
  then obtain k where k: "d = Suc (q + k)" by (auto dest: less_imp_Suc_add)
  have e1: "(2 * d - 1) * b = 2 * (q * b) + b + 2 * (k * b)"
    by (simp add: k algebra_simps)
  have h': "2 * (q * b) + b + 2 * (k * b) \<le> 2 * (q * b) + 2 * r"
    using h unfolding e1 a by simp
  have k0: "k = 0"
  proof (cases k)
    case (Suc k')
    have "k * b = b + k' * b" by (simp add: Suc)
    with h' rb show ?thesis by simp
  qed simp
  have br: "b \<le> 2 * r" using h' k0 by simp
  have "odd q" using d k k0 by simp
  then have qm: "q mod 2 = 1" by (simp add: odd_iff_mod_2_eq_one)
  have "round_half_even a b = q + 1"
    using br qm by (simp add: round_half_even_def Let_def q_def [symmetric] r_def [symmetric])
  then show ?thesis by (simp add: k k0)
qed

lemma round_half_even_lt_half:
  assumes b: "0 < b" and h: "2 * a < (2 * d - 1) * b"
  shows "round_half_even a b < d"
proof -
  define q where "q = a div b"
  define r where "r = a mod b"
  have a: "a = q * b + r" by (simp add: q_def r_def)
  have nle: "\<not> d \<le> q"
  proof
    assume "d \<le> q"
    then have "2 * d - 1 \<le> 2 * q" by simp
    then have "(2 * d - 1) * b \<le> (2 * q) * b" by (rule mult_le_mono1)
    also have "\<dots> \<le> 2 * a" by (simp add: a)
    finally show False using h by simp
  qed
  show ?thesis
  proof (cases "d = q + 1")
    case True
    have "(2 * d - 1) * b = 2 * (q * b) + b" by (simp add: True algebra_simps)
    with h have "2 * r < b" by (simp add: a)
    then have "round_half_even a b = q"
      by (simp add: round_half_even_def Let_def q_def [symmetric] r_def [symmetric])
    then show ?thesis by (simp add: True)
  next
    case False
    with nle have "q + 1 < d" by simp
    with round_half_even_range(2) [OF b, of a] show ?thesis
      by (simp add: q_def)
  qed
qed

lemma overflows_iff:
  "overflows (true_div10 u) \<longleftrightarrow> 10 * (2 ^ 1024 - 2 ^ 970) \<le> u"
proof -
  consider "u < 10 * 2 ^ 1023" | "10 * 2 ^ 1024 \<le> u"
    | "10 * 2 ^ 1023 \<le> u" and "u < 10 * 2 ^ 1024"
    by (meson not_le)
  then show ?thesis
  proof cases
    case 1
    have "(10::nat) * 2 ^ 1023 \<le> 10 * (2 ^ 1024 - 2 ^ 970)" by simp
    with 1 have "\<not> 10 * (2 ^ 1024 - 2 ^ 970) \<le> u" by (meson less_le_trans not_le)
    with no_overflow_below [OF 1] show ?thesis by (simp only: simp_thms)
  next
    case 2
    have "(10::nat) * (2 ^ 1024 - 2 ^ 970) \<le> 10 * 2 ^ 1024" by simp
    with 2 have "10 * (2 ^ 1024 - 2 ^ 970) \<le> u" by (meson le_trans)
    with overflow_above [OF 2] show ?thesis by (simp only: simp_thms)
  next
    case 3
    have upos: "0 < u" using 3(1) by simp
    obtain m e where td: "true_div10 u = (m, e)"
      and m: "m = round_half_even (u * 2 ^ 1074) (10 * 2 ^ e)"
      and lo: "10 * 2 ^ (52 + e) \<le> u * 2 ^ 1074"
      and hi: "u * 2 ^ 1074 < 10 * 2 ^ (53 + e)"
      using true_div10_props [OF upos] by blast
    have e1: "e \<le> 2045"
    proof -
      have "u * 2 ^ 1074 < (10 * 2 ^ 1024) * 2 ^ 1074"
        using 3(2) by (rule mult_strict_right_mono) simp
      also have "((10::nat) * 2 ^ 1024) * 2 ^ 1074 = 10 * 2 ^ 2098" by simp
      finally have A: "u * 2 ^ 1074 < 10 * 2 ^ 2098" .
      have "10 * (2::nat) ^ (52 + e) < 10 * 2 ^ 2098" using lo A by (rule le_less_trans)
      then have "(2::nat) ^ (52 + e) < 2 ^ 2098" by (simp only: mult_less_cancel1)
      then have "52 + e < 2098" by (rule power_less_imp_less_exp [rotated]) simp
      then show ?thesis by simp
    qed
    have e2: "2045 \<le> e"
    proof -
      have "(10 * 2 ^ 1023) * 2 ^ 1074 \<le> u * 2 ^ 1074"
        using 3(1) by (rule mult_le_mono1)
      moreover have "((10::nat) * 2 ^ 1023) * 2 ^ 1074 = 10 * 2 ^ 2097" by simp
      ultimately have A: "10 * 2 ^ 2097 \<le> u * 2 ^ 1074" by (simp only:)
      have "10 * (2::nat) ^ 2097 < 10 * 2 ^ (53 + e)" using A hi by (rule le_less_trans)
      then have "(2::nat) ^ 2097 < 2 ^ (53 + e)" by (simp only: mult_less_cancel1)
      then have "2097 < 53 + e" by (rule power_less_imp_less_exp [rotated]) simp
      then show ?thesis by simp
    qed
    from e1 e2 have e: "e = 2045" by simp
    have "(10::nat) * 2 ^ 2045 = (10 * 2 ^ 971) * 2 ^ 1074" by simp
    then have m': "m = round_half_even u (10 * 2 ^ 971)"
      unfolding m e by (simp only: round_half_even_scale zero_less_numeral zero_less_power)
    have ov: "overflows (true_div10 u) \<longleftrightarrow> 2 ^ 53 \<le> m"
    proof -
      have "(2::nat) ^ 2098 = 2 ^ 53 * 2 ^ 2045" by simp
      then show ?thesis
        unfolding td e overflows_def prod.case
        by (simp only: mult_le_cancel2 zero_less_numeral zero_less_power simp_thms)
    qed
    have c: "(2 * 2 ^ 53 - 1) * ((10::nat) * 2 ^ 971) = 2 * (10 * (2 ^ 1024 - 2 ^ 970))" by simp
    show ?thesis
    proof (cases "10 * (2 ^ 1024 - 2 ^ 970) \<le> u")
      case True
      then have "2 * (10 * (2 ^ 1024 - 2 ^ 970)) \<le> 2 * u" by (rule mult_le_mono2)
      then have "(2 * 2 ^ 53 - 1) * (10 * 2 ^ 971) \<le> 2 * u" by (simp only: c)
      then have "2 ^ 53 \<le> m" unfolding m'
        by (rule round_half_even_ge_half [rotated 2]) simp_all
      with True show ?thesis by (simp only: ov simp_thms)
    next
      case False
      then have "u < 10 * (2 ^ 1024 - 2 ^ 970)" by (simp only: not_le)
      then have "2 * u < 2 * (10 * (2 ^ 1024 - 2 ^ 970))" by (simp only: mult_less_cancel1 zero_less_numeral simp_thms)
      then have "2 * u < (2 * 2 ^ 53 - 1) * (10 * 2 ^ 971)" by (simp only: c)
      then have "m < 2 ^ 53" unfolding m'
        by (rule round_half_even_lt_half [rotated]) simp
      with False show ?thesis by (simp only: ov not_le [symmetric] simp_thms)
    qed
  qed
qed

lemma true_div10_big: "true_div10 11258999739514889 = (4503599895805956, 1072)"
proof -
  have bl: "bit_length 11258999739514889 = Suc 53"
    by (rule bit_length_unique) simp_all
  have "round_half_even (11258999739514889 * 2 ^ 1074) (10 * 2 ^ 1072)
      = round_half_even (45035998958059556 * 2 ^ 1072) (10 * 2 ^ 1072)"
    by simp
  also have "\<dots> = round_half_even 45035998958059556 10"
    by (rule round_half_even_scale) simp
  also have "\<dots> = 4503599895805956"
    by (simp add: round_half_even_def)
  finally show ?thesis
    by (simp add: true_div10_def bl)
qed

lemma math_sqrt_big: "math_sqrt (4503599895805956, 1072) = (4503599761588224, 1047)"
proof -
  have "isqrt (4503599895805956 * 2 ^ 52) = 4503599761588224"
    by (rule isqrt_unique) simp_all
  then show ?thesis by (simp add: math_sqrt_def)
qed

lemma int_sqrt_div10_big: "int_sqrt_div10 11258999739514889 = Inr 33554433"
proof -
  have "\<not> overflows (4503599895805956, 1072)"
    by (simp add: overflows_def)
  moreover have "int_of_double (4503599761588224, 1047) = 33554433"
    by (simp add: int_of_double_def)
  ultimately show ?thesis
    by (simp add: int_sqrt_div10_def true_div10_big math_sqrt_big)
qed

lemma isqrt_big: "isqrt (11258999739514889 div 10) = 33554432"
  by (rule isqrt_unique) simp_all

section \<open>Buffers under the append operations\<close>

lemma vertices_append_vertex [simp]: "vertices (append_vertex p m) = vertices m @ [p]"
  by (simp add: append_vertex_def)

lemma faces_append_vertex [simp]: "faces (append_vertex p m) = faces m"
  by (simp add: append_vertex_def)

lemma vertices_append_face [simp]: "vertices (append_face f m) = vertices m"
  by (simp add: append_face_def)

lemma faces_append_face [simp]: "faces (append_face f m) = faces m @ [f]"
  by (simp add: append_face_def)

lemma vertices_append_quad: "vertices (append_quad p1 p2 p3 p4 m) = vertices m @ [p1, p2, p3, p4]"
  by (simp add: append_quad_def Let_def)

lemma faces_append_quad: "faces (append_quad p1 p2 p3 p4 m) = faces m @ quad_faces (length (vertices m))"
  by (simp add: append_quad_def Let_def quad_faces_def)

lemma vertices_fold_append_vertex:
  "vertices (fold (\<lambda>i. append_vertex (f i)) xs m) = vertices m @ map f xs"
  by (induction xs arbitrary: m) simp_all

lemma faces_fold_append_vertex:
  "faces (fold (\<lambda>i. append_vertex (f i)) xs m) = faces m"
  by (induction xs arbitrary: m) simp_all

lemma vertices_fold_append_face:
  "vertices (fold (\<lambda>i. append_face (f i)) xs m) = vertices m"
  by (induction xs arbitrary: m) simp_all

lemma faces_fold_append_face:
  "faces (fold (\<lambda>i. append_face (f i)) xs m) = faces m @ map f xs"
  by (induction xs arbitrary: m) simp_all

lemma quad_run_0 [simp]: "quad_run v 0 = []"
  by (simp add: quad_run_def)

lemma quad_run_1: "quad_run v (Suc 0) = quad_faces v"
  by (simp add: quad_run_def)

lemma quad_run_add: "quad_run v (c + d) = quad_run v c @ quad_run (v + 4 * c) d"
proof (induction d)
  case 0
  then show ?case by simp
next
  case (Suc d)
  have "quad_run v (c + Suc d) = quad_run v (c + d) @ quad_faces (v + 4 * (c + d))"
    by (simp add: quad_run_def)
  also have "\<dots> = quad_run v c @ (quad_run (v + 4 * c) d @ quad_faces (v + 4 * c + 4 * d))"
    by (simp add: Suc.IH algebra_simps)
  also have "quad_run (v + 4 * c) d @ quad_faces (v + 4 * c + 4 * d) = quad_run (v + 4 * c) (Suc d)"
    by (simp add: quad_run_def)
  finally show ?case by simp
qed

lemma length_quad_run: "length (quad_run v c) = 2 * c"
  by (induction c) (simp_all add: quad_run_def quad_faces_def)

lemma fold_quad_block:
  assumes v: "\<And>x m. length (vertices (g x m)) = length (vertices m) + 4 * c"
    and f: "\<And>x m. faces (g x m) = faces m @ quad_run (length (vertices m)) c"
  shows "length (vertices (fold g xs m)) = length (vertices m) + 4 * (length xs * c)
       \<and> faces (fold g xs m) = faces m @ quad_run (length (vertices m)) (length xs * c)"
proof (induction xs arbitrary: m)
  case Nil
  then show ?case by simp
next
  case (Cons x xs)
  have "length (vertices (fold g (x # xs) m)) = length (vertices m) + 4 * (length (x # xs) * c)"
    by (simp add: Cons.IH v algebra_simps)
  moreover have "faces (fold g (x # xs) m) = faces m @ quad_run (length (vertices m)) (length (x # xs) * c)"
    by (simp add: Cons.IH v f quad_run_add [of _ c])
  ultimately show ?case by simp
qed

section \<open>The stages of the cone generator\<close>

lemma vertices_cone_body:
  "vertices (cone_body n m) =
     vertices m @ ConeTip # map (\<lambda>i. ConeRim i n) [0..<n] @ [ConeBaseCenter]"
  by (simp add: cone_body_def Let_def vertices_fold_append_vertex vertices_fold_append_face)

lemma faces_cone_body:
  "faces (cone_body n m) =
     faces m @ map (\<lambda>i. (0, 1 + i, 1 + (i + 1) mod n)) [0..<n]
             @ map (\<lambda>i. (length (vertices m) + n + 1, 1 + (i + 1) mod n, 1 + i)) [0..<n]"
  by (simp add: cone_body_def Let_def vertices_fold_append_vertex vertices_fold_append_face
      faces_fold_append_vertex faces_fold_append_face)

lemma fold_append_face_split:
  "fold (\<lambda>(f0, f1, f2). append_face (g f0 f1 f2)) fs m
     = fold (\<lambda>f. append_face (case f of (f0, f1, f2) \<Rightarrow> g f0 f1 f2)) fs m"
  by (rule arg_cong [where f = "\<lambda>h. fold h fs m"]) (auto simp: fun_eq_iff)

lemma vertices_axis_marker:
  "vertices (axis_marker a m) = vertices m @ map (AxisMarker a) [0..<5]"
  by (simp add: axis_marker_def Let_def fold_append_face_split
      vertices_fold_append_vertex vertices_fold_append_face)

lemma faces_axis_marker:
  "faces (axis_marker a m) =
     faces m @ map (\<lambda>(f0, f1, f2). (f0 + length (vertices m), f1 + length (vertices m),
                                      f2 + length (vertices m))) axis_faces"
  by (simp add: axis_marker_def Let_def fold_append_face_split
      faces_fold_append_vertex faces_fold_append_face)

lemma arrow_patches_shape:
  "length (vertices (arrow_patches b m))
     = length (vertices m) + 4 * (b div 10 * (b div 20 * (b div 20)))
   \<and> faces (arrow_patches b m)
     = faces m @ quad_run (length (vertices m)) (b div 10 * (b div 20 * (b div 20)))"
proof -
  let ?q = "\<lambda>i j k. append_quad (ArrowPoint i (b div 10) j k (b div 20))
                 (ArrowPoint i (b div 10) j (k + 1) (b div 20))
                 (ArrowPoint i (b div 10) (j + 1) k (b div 20))
                 (ArrowPoint i (b div 10) (j + 1) (k + 1) (b div 20))"
  have k: "length (vertices (fold (?q i j) xs m)) = length (vertices m) + 4 * (length xs * 1)
         \<and> faces (fold (?q i j) xs m) = faces m @ quad_run (length (vertices m)) (length xs * 1)"
    for i j xs m
    by (rule fold_quad_block) (simp_all add: vertices_append_quad faces_append_quad quad_run_1)
  have j: "length (vertices (fold (\<lambda>j. fold (?q i j) [0..<b div 20]) xs m))
             = length (vertices m) + 4 * (length xs * (b div 20))
         \<and> faces (fold (\<lambda>j. fold (?q i j) [0..<b div 20]) xs m)
             = faces m @ quad_run (length (vertices m)) (length xs * (b div 20))"
    for i xs m
    by (rule fold_quad_block) (use k in simp_all)
  have i: "length (vertices (fold (\<lambda>i. fold (\<lambda>j. fold (?q i j) [0..<b div 20]) [0..<b div 20]) xs m))
             = length (vertices m) + 4 * (length xs * (b div 20 * (b div 20)))
         \<and> faces (fold (\<lambda>i. fold (\<lambda>j. fold (?q i j) [0..<b div 20]) [0..<b div 20]) xs m)
             = faces m @ quad_run (length (vertices m)) (length xs * (b div 20 * (b div 20)))"
    for xs m
    by (rule fold_quad_block) (use j in simp_all)
  show ?thesis
    unfolding arrow_patches_def Let_def using i [of "[0..<b div 10]" m] by simp
qed

lemma spiral_fill_shape:
  "length (vertices (spiral_fill t p m)) = length (vertices m) + 4 * (p * t)
   \<and> faces (spiral_fill t p m) = faces m @ quad_run (length (vertices m)) (p * t)"
proof -
  let ?q = "\<lambda>i j. append_quad (SpiralPoint i j i p t) (SpiralPoint i (j + 1) i p t)
                 (SpiralPoint (i + 1) j i p t) (SpiralPoint (i + 1) (j + 1) i p t)"
  have j: "length (vertices (fold (?q i) xs m)) = length (vertices m) + 4 * (length xs * 1)
         \<and> faces (fold (?q i) xs m) = faces m @ quad_run (length (vertices m)) (length xs * 1)"
    for i xs m
    by (rule fold_quad_block) (simp_all add: vertices_append_quad faces_append_quad quad_run_1)
  have i: "length (vertices (fold (\<lambda>i. fold (?q i) [0..<t]) xs m))
             = length (vertices m) + 4 * (length xs * t)
         \<and> faces (fold (\<lambda>i. fold (?q i) [0..<t]) xs m)
             = faces m @ quad_run (length (vertices m)) (length xs * t)"
    for xs m
    by (rule fold_quad_block) (use j in simp_all)
  show ?thesis
    unfolding spiral_fill_def using i [of "[0..<p]" m] by simp
qed

lemma length_vertices_fixed_stages:
  "length (vertices (fixed_stages b)) = b + 17 + 4 * (b div 10 * (b div 20 * (b div 20)))"
  by (simp add: fixed_stages_def arrow_patches_shape vertices_axis_marker vertices_cone_body
      empty_mesh_def)

lemma faces_fixed_stages:
  "faces (fixed_stages b) =
     map (\<lambda>i. (0, 1 + i, 1 + (i + 1) mod b)) [0..<b]
     @ map (\<lambda>i. (b + 1, 1 + (i + 1) mod b, 1 + i)) [0..<b]
     @ map (\<lambda>(f0, f1, f2). (f0 + (b + 2), f1 + (b + 2), f2 + (b + 2))) axis_faces
     @ map (\<lambda>(f0, f1, f2). (f0 + (b + 7), f1 + (b + 7), f2 + (b + 7))) axis_faces
     @ map (\<lambda>(f0, f1, f2). (f0 + (b + 12), f1 + (b + 12), f2 + (b + 12))) axis_faces
     @ quad_run (b + 17) (b div 10 * (b div 20 * (b div 20)))"
  by (simp add: fixed_stages_def arrow_patches_shape vertices_axis_marker faces_axis_marker
      vertices_cone_body faces_cone_body empty_mesh_def add.commute)

lemma length_faces_fixed_stages:
  "length (faces (fixed_stages b)) = 2 * b + 18 + 2 * (b div 10 * (b div 20 * (b div 20)))"
  by (simp add: faces_fixed_stages length_quad_run axis_faces_def)

lemma face_in_range_mono: "face_in_range n f \<Longrightarrow> n \<le> n' \<Longrightarrow> face_in_range n' f"
  by (auto simp: face_in_range_def split: prod.splits)

lemma list_all_face_in_range_mono:
  "list_all (face_in_range n) fs \<Longrightarrow> n \<le> n' \<Longrightarrow> list_all (face_in_range n') fs"
  by (auto simp: list_all_iff intro: face_in_range_mono)

lemma quad_run_in_range: "v + 4 * c \<le> n \<Longrightarrow> list_all (face_in_range n) (quad_run v c)"
  by (auto simp: quad_run_def quad_faces_def list_all_iff face_in_range_def)

lemma quad_run_distinct: "list_all face_distinct (quad_run v c)"
  by (auto simp: quad_run_def quad_faces_def list_all_iff face_distinct_def)

lemma axis_faces_in_range:
  "v + 5 \<le> n \<Longrightarrow>
   list_all (face_in_range n) (map (\<lambda>(f0, f1, f2). (f0 + v, f1 + v, f2 + v)) axis_faces)"
  by (simp add: axis_faces_def face_in_range_def)

lemma axis_faces_distinct:
  "list_all face_distinct (map (\<lambda>(f0, f1, f2). (f0 + v, f1 + v, f2 + v)) axis_faces)"
  by (simp add: axis_faces_def face_distinct_def)

lemma cone_faces_in_range:
  "b + 2 \<le> n \<Longrightarrow>
   list_all (face_in_range n) (map (\<lambda>i. (0, 1 + i, 1 + (i + 1) mod b)) [0..<b])
   \<and> list_all (face_in_range n) (map (\<lambda>i. (b + 1, 1 + (i + 1) mod b, 1 + i)) [0..<b])"
proof -
  assume n: "b + 2 \<le> n"
  have "(i + 1) mod b < b" if "i < b" for i
    using that by simp
  then have "1 + (i + 1) mod b < n \<and> 1 + i < n \<and> b + 1 < n \<and> 0 < n" if "i < b" for i
    using that n by (metis add.commute add_2_eq_Suc' less_Suc_eq less_le_trans not_less_eq plus_1_eq_Suc zero_less_Suc)
  then show ?thesis
    by (simp add: list_all_iff face_in_range_def)
qed

lemma cone_faces_distinct:
  assumes "b \<noteq> 1"
  shows "list_all face_distinct (map (\<lambda>i. (0, 1 + i, 1 + (i + 1) mod b)) [0..<b])
       \<and> list_all face_distinct (map (\<lambda>i. (b + 1, 1 + (i + 1) mod b, 1 + i)) [0..<b])"
proof -
  have ne: "(i + 1) mod b \<noteq> i" if "i < b" for i
  proof (cases "i + 1 < b")
    case True
    then show ?thesis by simp
  next
    case False
    with that have "i + 1 = b" by simp
    with assms show ?thesis by auto
  qed
  have lt: "(i + 1) mod b < b" if "i < b" for i
    using that by simp
  have "b + 1 \<noteq> 1 + (i + 1) mod b" if "i < b" for i
    using lt [OF that] by simp
  with ne ne [symmetric] show ?thesis
    by (auto simp: list_all_iff face_distinct_def)
qed

lemma indices_valid_fixed_stages: "indices_valid (fixed_stages b)"
proof -
  let ?n = "b + 17 + 4 * (b div 10 * (b div 20 * (b div 20)))"
  have "list_all (face_in_range ?n) (map (\<lambda>i. (0, 1 + i, 1 + (i + 1) mod b)) [0..<b])"
    and "list_all (face_in_range ?n) (map (\<lambda>i. (b + 1, 1 + (i + 1) mod b, 1 + i)) [0..<b])"
    using cone_faces_in_range [of b ?n] by simp_all
  moreover have "list_all (face_in_range ?n)
      (map (\<lambda>(f0, f1, f2). (f0 + (b + 2), f1 + (b + 2), f2 + (b + 2))) axis_faces)"
    by (rule axis_faces_in_range) simp
  moreover have "list_all (face_in_range ?n)
      (map (\<lambda>(f0, f1, f2). (f0 + (b + 7), f1 + (b + 7), f2 + (b + 7))) axis_faces)"
    by (rule axis_faces_in_range) simp
  moreover have "list_all (face_in_range ?n)
      (map (\<lambda>(f0, f1, f2). (f0 + (b + 12), f1 + (b + 12), f2 + (b + 12))) axis_faces)"
    by (rule axis_faces_in_range) simp
  moreover have "list_all (face_in_range ?n) (quad_run (b + 17) (b div 10 * (b div 20 * (b div 20))))"
    by (rule quad_run_in_range) simp
  ultimately show ?thesis
    unfolding indices_valid_def length_vertices_fixed_stages faces_fixed_stages
    by (simp only: list_all_append simp_thms)
qed

lemma no_degenerate_fixed_stages: "no_degenerate (fixed_stages b) \<longleftrightarrow> b \<noteq> 1"
proof (cases "b = 1")
  case True
  have "\<not> face_distinct (0, 1, 1)" by (simp add: face_distinct_def)
  then show ?thesis
    using True by (simp add: no_degenerate_def faces_fixed_stages)
next
  case False
  then show ?thesis
    using cone_faces_distinct [OF False]
    unfolding no_degenerate_def faces_fixed_stages
    by (simp only: list_all_append axis_faces_distinct quad_run_distinct simp_thms)
qed

lemma indices_valid_spiral_fill:
  assumes "indices_valid m"
  shows "indices_valid (spiral_fill t p m)"
proof -
  have "list_all (face_in_range (length (vertices m) + 4 * (p * t))) (faces m)"
    using assms unfolding indices_valid_def by (rule list_all_face_in_range_mono) simp
  moreover have "list_all (face_in_range (length (vertices m) + 4 * (p * t)))
      (quad_run (length (vertices m)) (p * t))"
    by (rule quad_run_in_range) simp
  ultimately show ?thesis
    by (simp add: indices_valid_def spiral_fill_shape)
qed

lemma no_degenerate_spiral_fill:
  "no_degenerate (spiral_fill t p m) \<longleftrightarrow> no_degenerate m"
  by (simp add: no_degenerate_def spiral_fill_shape quad_run_distinct)

lemma stl_vectors_valid:
  "list_all (face_in_range (length vs)) fs \<Longrightarrow> stl_vectors vs fs = Inr (map (resolve vs) fs)"
  by (induction fs) (auto simp: face_in_range_def getitem_def resolve_def)

lemma stl_vectors_Inr:
  "stl_vectors vs fs = Inr ts \<Longrightarrow> list_all (face_in_range (length vs)) fs"
  by (induction fs arbitrary: ts)
     (auto simp: face_in_range_def getitem_def split: if_splits sum.splits)

lemma save_mesh_valid:
  "indices_valid m \<Longrightarrow>
   save_mesh m = Inr \<lparr>buffers = m, stl_file = map (resolve (vertices m)) (faces m),
                      actual_triangles = length (faces m)\<rparr>"
  by (simp add: save_mesh_def indices_valid_def stl_vectors_valid)

lemma save_mesh_Inr:
  "save_mesh m = Inr r \<Longrightarrow> indices_valid m \<and> buffers r = m"
  by (auto simp: save_mesh_def indices_valid_def split: sum.splits dest: stl_vectors_Inr)

section \<open>The cone generator as a whole\<close>

lemma int_sqrt_div10_eq:
  "int_sqrt_div10 t =
     (if 10 * (2 ^ 1024 - 2 ^ 970) \<le> \<bar>t\<bar> then Inl OverflowError
      else if t < 0 then Inl ValueError
      else Inr (int_of_double (math_sqrt (true_div10 (nat t)))))"
proof -
  have "int (10 * (2 ^ 1024 - 2 ^ 970)) = 10 * (2 ^ 1024 - 2 ^ 970)"
    by simp
  then have "(10 * (2 ^ 1024 - 2 ^ 970) \<le> nat \<bar>t\<bar>) = (10 * (2 ^ 1024 - 2 ^ 970) \<le> \<bar>t\<bar>)"
    by (simp only: le_nat_iff [OF abs_ge_zero])
  then have o: "overflows (true_div10 (nat \<bar>t\<bar>)) = (10 * (2 ^ 1024 - 2 ^ 970) \<le> \<bar>t\<bar>)"
    by (simp only: overflows_iff)
  show ?thesis
  proof (cases "t < 0")
    case True
    then show ?thesis
      unfolding int_sqrt_div10_def Let_def o by (simp only: if_True)
  next
    case False
    then have a: "nat \<bar>t\<bar> = nat t" by simp
    show ?thesis
      unfolding int_sqrt_div10_def Let_def o by (simp only: a)
  qed
qed

lemma int_sqrt_div10_huge:
  "int_sqrt_div10 (10 ^ 310) = Inl OverflowError
   \<and> int_sqrt_div10 (- (10 ^ 310)) = Inl OverflowError"
  by (simp add: int_sqrt_div10_eq)

lemma int_sqrt_div10_Inr:
  assumes "int_sqrt_div10 t = Inr b"
  shows "0 \<le> t \<and> b = int_of_double (math_sqrt (true_div10 (nat t)))"
proof -
  have "\<not> t < 0"
  proof
    assume "t < 0"
    then have "int_sqrt_div10 t = Inl OverflowError \<or> int_sqrt_div10 t = Inl ValueError"
      by (simp only: int_sqrt_div10_def Let_def if_True split: if_split) blast
    with assms show False by auto
  qed
  then have t: "0 \<le> t" by simp
  then have a: "nat \<bar>t\<bar> = nat t" by simp
  have "int_sqrt_div10 t = Inl OverflowError
      \<or> int_sqrt_div10 t = Inr (int_of_double (math_sqrt (true_div10 (nat t))))"
    using \<open>\<not> t < 0\<close> by (simp only: int_sqrt_div10_def Let_def a if_False split: if_split) blast
  with assms have "b = int_of_double (math_sqrt (true_div10 (nat t)))" by auto
  with t show ?thesis by simp
qed

lemma int_sqrt_div10_negative:
  assumes "t < 0"
  shows "int_sqrt_div10 t =
     Inl (if t \<le> - (10 * (2 ^ 1024 - 2 ^ 970)) then OverflowError else ValueError)"
proof -
  have "(10 * (2 ^ 1024 - 2 ^ 970) \<le> \<bar>t\<bar>) = (t \<le> - (10 * (2 ^ 1024 - 2 ^ 970)))"
    using assms by (simp only: abs_of_neg) linarith
  then show ?thesis
    unfolding int_sqrt_div10_eq using assms by (simp only: if_True split: if_split) blast
qed

lemma large_target:
  assumes "int_sqrt_div10 t = Inr b" and "10 ^ 13 \<le> t"
  shows "2 ^ 19 \<le> b \<and> t \<le> int (length (faces (fixed_stages b)))"
proof -
  have b: "b = int_of_double (math_sqrt (true_div10 (nat t)))"
    using int_sqrt_div10_Inr [OF assms(1)] by (rule conjunct2)
  have u: "10 ^ 13 \<le> nat t" using assms(2) by simp
  obtain p where p: "19 \<le> p" "2 ^ p \<le> b" "nat t < 40 * (2 ^ p * 2 ^ p)"
    using large_lower [OF u] unfolding b [symmetric] by blast
  have "(2::nat) ^ 19 \<le> 2 ^ p" using p(1) by (rule power_increasing) simp
  then have b19: "2 ^ 19 \<le> b" using p(2) by (rule le_trans)
  have "nat t \<le> 2 * (b div 10) * ((b div 20) * (b div 20))"
    using p by (rule cubic_bound)
  also have "\<dots> \<le> length (faces (fixed_stages b))"
    by (simp add: length_faces_fixed_stages)
  finally have "t \<le> int (length (faces (fixed_stages b)))" by simp
  with b19 show ?thesis by simp
qed

lemma remaining_positive_small:
  assumes "int_sqrt_div10 t = Inr b" and "0 < t - int (length (faces (fixed_stages b)))"
  shows "0 \<le> t \<and> t < 10 ^ 13 \<and> b = isqrt (nat t div 10)
       \<and> int_sqrt_div10 (t - int (length (faces (fixed_stages b))))
           = Inr (isqrt (nat (t - int (length (faces (fixed_stages b)))) div 10))"
proof -
  have t0: "0 \<le> t" using int_sqrt_div10_Inr [OF assms(1)] by (rule conjunct1)
  have small: "t < 10 ^ 13"
  proof (rule ccontr)
    assume "\<not> t < 10 ^ 13"
    then have "10 ^ 13 \<le> t" by simp
    then have "t \<le> int (length (faces (fixed_stages b)))"
      using large_target [OF assms(1)] by blast
    with assms(2) show False by simp
  qed
  have "Inr b = Inr (isqrt (nat t div 10))"
    using int_sqrt_div10_exact [OF t0 small] assms(1) by simp
  then have b: "b = isqrt (nat t div 10)" by simp
  have "0 \<le> t - int (length (faces (fixed_stages b)))" using assms(2) by simp
  moreover have "t - int (length (faces (fixed_stages b))) < 10 ^ 13" using small by simp
  ultimately have "int_sqrt_div10 (t - int (length (faces (fixed_stages b))))
           = Inr (isqrt (nat (t - int (length (faces (fixed_stages b)))) div 10))"
    by (rule int_sqrt_div10_exact)
  with t0 small b show ?thesis by simp
qed

lemma build_directional_model_Inl:
  "int_sqrt_div10 t = Inl e \<Longrightarrow> build_directional_model t = Inl (e, None)"
  by (simp add: build_directional_model_def)

lemma build_directional_model_Inr:
  assumes "int_sqrt_div10 t = Inr b"
  shows "build_directional_model t =
     Inr (if 0 < t - int (length (faces (fixed_stages b)))
          then spiral_fill (isqrt (nat (t - int (length (faces (fixed_stages b)))) div 10))
                 (isqrt (nat (t - int (length (faces (fixed_stages b)))) div 10) * 10)
                 (fixed_stages b)
          else fixed_stages b)"
proof (cases "0 < t - int (length (faces (fixed_stages b)))")
  case True
  have "int_sqrt_div10 (t - int (length (faces (fixed_stages b))))
           = Inr (isqrt (nat (t - int (length (faces (fixed_stages b)))) div 10))"
    using remaining_positive_small [OF assms True] by blast
  then show ?thesis
    using True by (simp add: build_directional_model_def assms Let_def)
next
  case False
  then show ?thesis
    by (simp add: build_directional_model_def assms Let_def)
qed

lemma build_directional_model_base:
  assumes "build_directional_model t = Inr m"
  shows "\<exists>b. int_sqrt_div10 t = Inr b"
proof (cases "int_sqrt_div10 t")
  case (Inl e)
  then show ?thesis
    using assms by (simp add: build_directional_model_Inl)
next
  case (Inr b)
  then show ?thesis by blast
qed

lemma remaining_triangles_Inr:
  "int_sqrt_div10 t = Inr b \<Longrightarrow>
   remaining_triangles t = t - int (length (faces (fixed_stages b)))"
  by (simp add: remaining_triangles_def)

lemma remaining_triangles_small:
  assumes "0 \<le> t" and "t < 10 ^ 13"
  shows "remaining_triangles t =
     t - int (length (faces (fixed_stages (isqrt (nat t div 10)))))"
  using int_sqrt_div10_exact [OF assms] by (rule remaining_triangles_Inr)

lemma remaining_triangles_pos:
  assumes "0 < remaining_triangles t"
  shows "0 \<le> t \<and> t < 10 ^ 13"
proof (cases "int_sqrt_div10 t")
  case (Inl e)
  then show ?thesis
    using assms by (simp add: remaining_triangles_def)
next
  case (Inr b)
  then have "0 < t - int (length (faces (fixed_stages b)))"
    using assms by (simp add: remaining_triangles_def)
  with remaining_positive_small [OF Inr] show ?thesis by blast
qed

lemma build_directional_model_small:
  assumes "0 \<le> t" and "t < 10 ^ 13"
  shows "build_directional_model t =
     Inr (if 0 < remaining_triangles t
          then spiral_fill (isqrt (nat (remaining_triangles t) div 10))
                 (isqrt (nat (remaining_triangles t) div 10) * 10)
                 (fixed_stages (isqrt (nat t div 10)))
          else fixed_stages (isqrt (nat t div 10)))"
  unfolding remaining_triangles_small [OF assms]
  using int_sqrt_div10_exact [OF assms] by (rule build_directional_model_Inr)

lemma indices_valid_cone:
  assumes "build_directional_model t = Inr m"
  shows "indices_valid m"
proof -
  obtain b where b: "int_sqrt_div10 t = Inr b"
    using build_directional_model_base [OF assms] by blast
  show ?thesis
    using assms unfolding build_directional_model_Inr [OF b]
    by (auto simp: indices_valid_spiral_fill indices_valid_fixed_stages split: if_splits)
qed

lemma create_directional_model_build:
  assumes "build_directional_model t = Inr m"
  shows "create_directional_model t =
           Inr \<lparr>buffers = m, stl_file = map (resolve (vertices m)) (faces m),
                actual_triangles = length (faces m)\<rparr>"
proof -
  have "indices_valid m" using assms by (rule indices_valid_cone)
  then show ?thesis
    using assms by (simp add: create_directional_model_def save_mesh_valid)
qed

lemma create_directional_model_small:
  assumes "0 \<le> t" and "t < 10 ^ 13"
  shows "\<exists>m. build_directional_model t = Inr m
       \<and> create_directional_model t =
           Inr \<lparr>buffers = m, stl_file = map (resolve (vertices m)) (faces m),
                actual_triangles = length (faces m)\<rparr>"
proof -
  obtain m where m: "build_directional_model t = Inr m"
    using build_directional_model_small [OF assms] by simp
  then show ?thesis
    using create_directional_model_build [OF m] by blast
qed

lemma create_directional_model_Inr:
  assumes "create_directional_model t = Inr r"
  shows "build_directional_model t = Inr (buffers r)
       \<and> stl_file r = map (resolve (vertices (buffers r))) (faces (buffers r))
       \<and> actual_triangles r = length (faces (buffers r))"
proof (cases "build_directional_model t")
  case (Inl f)
  then show ?thesis
    using assms by (simp add: create_directional_model_def)
next
  case (Inr m)
  from create_directional_model_build [OF Inr] assms show ?thesis
    using Inr by auto
qed

lemma cone_triangles_Inl:
  "int_sqrt_div10 t = Inl e \<Longrightarrow> cone_triangles t = 0"
  by (simp add: cone_triangles_def create_directional_model_def build_directional_model_Inl)

lemma cone_triangles_Inr:
  assumes "int_sqrt_div10 t = Inr b"
  shows "cone_triangles t =
     length (faces (fixed_stages b))
     + (if 0 < remaining_triangles t
        then 20 * (isqrt (nat (remaining_triangles t) div 10) * isqrt (nat (remaining_triangles t) div 10))
        else 0)"
proof -
  have r: "t - int (length (faces (fixed_stages b))) = remaining_triangles t"
    using remaining_triangles_Inr [OF assms] by simp
  obtain m where m: "build_directional_model t = Inr m"
    using build_directional_model_Inr [OF assms] by simp
  have m_eq: "m = (if 0 < remaining_triangles t
          then spiral_fill (isqrt (nat (remaining_triangles t) div 10))
                 (isqrt (nat (remaining_triangles t) div 10) * 10) (fixed_stages b)
          else fixed_stages b)"
    using m unfolding build_directional_model_Inr [OF assms] r by (simp only: sum.inject)
  have "cone_triangles t = length (faces m)"
    by (simp add: cone_triangles_def create_directional_model_build [OF m])
  also have "\<dots> = length (faces (fixed_stages b))
     + (if 0 < remaining_triangles t
        then 20 * (isqrt (nat (remaining_triangles t) div 10) * isqrt (nat (remaining_triangles t) div 10))
        else 0)"
    unfolding m_eq by (simp add: spiral_fill_shape length_quad_run)
  finally show ?thesis .
qed

lemma cone_triangles_eq:
  assumes "0 \<le> t" and "t < 10 ^ 13"
  shows "cone_triangles t =
     length (faces (fixed_stages (isqrt (nat t div 10))))
     + (if 0 < remaining_triangles t
        then 20 * (isqrt (nat (remaining_triangles t) div 10) * isqrt (nat (remaining_triangles t) div 10))
        else 0)"
  using int_sqrt_div10_exact [OF assms] by (rule cone_triangles_Inr)

lemma vertices_fold_extends:
  assumes "\<And>x m. \<exists>vs. vertices (g x m) = vertices m @ vs"
  shows "\<exists>vs. vertices (fold g xs m) = vertices m @ vs"
proof (induction xs arbitrary: m)
  case Nil
  then show ?case by simp
next
  case (Cons x xs)
  obtain vs where vs: "vertices (g x m) = vertices m @ vs"
    using assms by blast
  obtain ws where "vertices (fold g xs (g x m)) = vertices (g x m) @ ws"
    using Cons.IH by blast
  then have "vertices (fold g (x # xs) m) = vertices m @ (vs @ ws)"
    by (simp add: vs)
  then show ?case by blast
qed

lemma vertices_arrow_patches_extends:
  "\<exists>vs. vertices (arrow_patches b m) = vertices m @ vs"
  unfolding arrow_patches_def Let_def
  by (intro vertices_fold_extends) (simp add: vertices_append_quad)

lemma vertices_spiral_fill_extends:
  "\<exists>vs. vertices (spiral_fill t p m) = vertices m @ vs"
  unfolding spiral_fill_def
  by (intro vertices_fold_extends) (simp add: vertices_append_quad)

lemma take_vertices_fixed_stages:
  "take (b + 2) (vertices (fixed_stages b)) =
     ConeTip # map (\<lambda>i. ConeRim i b) [0..<b] @ [ConeBaseCenter]"
proof -
  obtain vs where
    "vertices (fixed_stages b) =
       vertices (axis_marker Z_axis (axis_marker Y_axis (axis_marker X_axis
          (cone_body b empty_mesh)))) @ vs"
    unfolding fixed_stages_def using vertices_arrow_patches_extends by blast
  then have "vertices (fixed_stages b) =
      (ConeTip # map (\<lambda>i. ConeRim i b) [0..<b] @ [ConeBaseCenter])
      @ (map (AxisMarker X_axis) [0..<5] @ map (AxisMarker Y_axis) [0..<5]
         @ map (AxisMarker Z_axis) [0..<5] @ vs)"
    by (simp add: vertices_axis_marker vertices_cone_body empty_mesh_def)
  then show ?thesis
    by (simp only: take_append) simp
qed

lemma take_vertices_cone:
  assumes "int_sqrt_div10 t = Inr b" and "build_directional_model t = Inr m"
  shows "take (b + 2) (vertices m) =
     ConeTip # map (\<lambda>i. ConeRim i b) [0..<b] @ [ConeBaseCenter]"
proof -
  let ?r = "t - int (length (faces (fixed_stages b)))"
  have m_eq: "m = (if 0 < ?r
          then spiral_fill (isqrt (nat ?r div 10)) (isqrt (nat ?r div 10) * 10) (fixed_stages b)
          else fixed_stages b)"
    using assms(2) by (simp only: build_directional_model_Inr [OF assms(1)] sum.inject)
  have "\<exists>vs. vertices m = vertices (fixed_stages b) @ vs"
  proof (cases "0 < ?r")
    case True
    then have "m = spiral_fill (isqrt (nat ?r div 10)) (isqrt (nat ?r div 10) * 10)
        (fixed_stages b)"
      using m_eq by (simp only: if_True)
    then show ?thesis
      by (simp only: vertices_spiral_fill_extends)
  next
    case False
    then have "m = fixed_stages b"
      using m_eq by (simp only: if_False)
    then show ?thesis by simp
  qed
  then obtain vs where vs: "vertices m = vertices (fixed_stages b) @ vs" ..
  have "b + 2 \<le> length (vertices (fixed_stages b))"
    by (simp add: length_vertices_fixed_stages)
  then have "take (b + 2) (vertices m) = take (b + 2) (vertices (fixed_stages b))"
    by (simp add: vs)
  then show ?thesis
    by (simp only: take_vertices_fixed_stages)
qed

lemma isqrt_nat_floor:
  "0 \<le> t \<Longrightarrow> isqrt (nat t div 10) = nat \<lfloor>sqrt (real_of_int t / 10)\<rfloor>"
  using isqrt_floor_sqrt [of t] by linarith

lemma isqrt_1000000: "isqrt 1000000 = 1000"
  by (rule isqrt_unique) simp_all

text \<open>
  C5, as stated, fails for large targets: the quotient and the root are rounded. For
  \<open>T = 11258999739514889\<close> the quotient \<open>T / 10 = 1125899973951488.9\<close> is rounded to the
  double \<open>1125899973951489 = 33554433\<^sup>2\<close>, so that line 18 yields 33554433, whereas
  \<open>\<lfloor>sqrt (T / 10)\<rfloor> = 33554432\<close>.
\<close>

theorem resolution_rounding_counterexample:
  "int_sqrt_div10 11258999739514889 = Inr 33554433
   \<and> nat \<lfloor>sqrt (real_of_int 11258999739514889 / 10)\<rfloor> = 33554432"
proof -
  have "isqrt (nat 11258999739514889 div 10) = nat \<lfloor>sqrt (real_of_int 11258999739514889 / 10)\<rfloor>"
    by (rule isqrt_nat_floor) simp
  moreover have "isqrt (nat 11258999739514889 div 10) = 33554432"
    using isqrt_big by simp
  ultimately have "nat \<lfloor>sqrt (real_of_int 11258999739514889 / 10)\<rfloor> = 33554432"
    by (simp only:)
  with int_sqrt_div10_big show ?thesis
    by (rule conjI)
qed

text \<open>
  C5, amended. For a target \<open>0 \<le> T < 10\<^sup>1\<^sup>3\<close> the rounding does not show: line 18 yields
  \<open>base_resolution = \<lfloor>sqrt (T / 10)\<rfloor>\<close>, the run completes, and its buffers start with
  the tip, that many rim vertices and the base centre. For \<open>T = 10,000,000\<close> line 18
  yields exactly 1000.
\<close>

theorem cone_resolution_formula:
  "(0 \<le> t \<and> t < 10 ^ 13 \<longrightarrow>
      int_sqrt_div10 t = Inr (nat \<lfloor>sqrt (real_of_int t / 10)\<rfloor>)
      \<and> (\<exists>r. create_directional_model t = Inr r
            \<and> take (nat \<lfloor>sqrt (real_of_int t / 10)\<rfloor> + 2) (vertices (buffers r)) =
                ConeTip # map (\<lambda>i. ConeRim i (nat \<lfloor>sqrt (real_of_int t / 10)\<rfloor>))
                            [0..<nat \<lfloor>sqrt (real_of_int t / 10)\<rfloor>]
                @ [ConeBaseCenter]))
   \<and> int_sqrt_div10 10000000 = Inr 1000"
proof (intro conjI impI)
  assume a: "0 \<le> t \<and> t < 10 ^ 13"
  then have t: "0 \<le> t" and s: "t < 10 ^ 13" by simp_all
  show i: "int_sqrt_div10 t = Inr (nat \<lfloor>sqrt (real_of_int t / 10)\<rfloor>)"
    using int_sqrt_div10_exact [OF t s] by (simp only: isqrt_nat_floor [OF t])
  from create_directional_model_small [OF t s] obtain m where
    m: "build_directional_model t = Inr m" and
    c: "create_directional_model t =
           Inr \<lparr>buffers = m, stl_file = map (resolve (vertices m)) (faces m),
                actual_triangles = length (faces m)\<rparr>"
    by blast
  show "\<exists>r. create_directional_model t = Inr r
           \<and> take (nat \<lfloor>sqrt (real_of_int t / 10)\<rfloor> + 2) (vertices (buffers r)) =
               ConeTip # map (\<lambda>i. ConeRim i (nat \<lfloor>sqrt (real_of_int t / 10)\<rfloor>))
                           [0..<nat \<lfloor>sqrt (real_of_int t / 10)\<rfloor>]
               @ [ConeBaseCenter]"
    using take_vertices_cone [OF i m] c by simp
next
  have "int_sqrt_div10 10000000 = Inr (isqrt (nat 10000000 div 10))"
    by (rule int_sqrt_div10_exact) simp_all
  then show "int_sqrt_div10 10000000 = Inr 1000"
    by (simp add: isqrt_1000000)
qed

theorem cone_resolution_formula_witness:
  "(0::int) \<le> 40 \<and> (40::int) < 10 ^ 13 \<and> int_sqrt_div10 40 = Inr 2
   \<and> (\<exists>r. create_directional_model 40 = Inr r
         \<and> take 4 (vertices (buffers r)) = [ConeTip, ConeRim 0 2, ConeRim 1 2, ConeBaseCenter])"
proof -
  have a: "nat \<lfloor>sqrt (real_of_int 40 / 10)\<rfloor> = 2"
    by simp
  have b: "[0..<2] = [0, Suc 0]"
    by (simp add: upt_rec)
  show ?thesis
    using cone_resolution_formula [of 40] unfolding a by (simp add: b)
qed

lemma spiral_theta_floor:
  "0 < r \<Longrightarrow> isqrt (nat r div 10) = nat \<lfloor>sqrt (real_of_int r / 10)\<rfloor>"
  by (rule isqrt_nat_floor) simp

lemma fixed_stages_unfolded:
  "arrow_patches b (axis_marker Z_axis (axis_marker Y_axis (axis_marker X_axis
     (cone_body b empty_mesh)))) = fixed_stages b"
  by (simp only: fixed_stages_def)

text \<open>
  C3. Let \<open>b\<close> be the base resolution that line 18 yields for the target \<open>T\<close>. The cone
  body, the three axis markers and the arrow patches emit
  \<open>2 b + 18 + 2 (b div 10) (b div 20)\<^sup>2\<close> faces; the texture fill receives \<open>T\<close> minus that
  number, is skipped (the buffers stay as they are) when this is not positive, and
  otherwise line 249 yields \<open>spiral_res_theta = \<lfloor>sqrt (remaining / 10)\<rfloor>\<close> and the stage
  runs with it and with \<open>spiral_res_phi = 10 * spiral_res_theta\<close>.
\<close>

theorem texture_fill_budget:
  assumes "int_sqrt_div10 t = Inr b"
  shows "let m = arrow_patches b (axis_marker Z_axis (axis_marker Y_axis (axis_marker X_axis
                   (cone_body b empty_mesh))));
             remaining = t - int (length (faces m));
             theta = nat \<lfloor>sqrt (real_of_int remaining / 10)\<rfloor>
         in length (faces m) = 2 * b + 18 + 2 * (b div 10 * (b div 20 * (b div 20)))
          \<and> remaining_triangles t = remaining
          \<and> (if remaining \<le> 0 then build_directional_model t = Inr m
              else int_sqrt_div10 remaining = Inr theta
                 \<and> build_directional_model t = Inr (spiral_fill theta (10 * theta) m))"
proof -
  let ?r = "t - int (length (faces (fixed_stages b)))"
  have r: "remaining_triangles t = ?r"
    using assms by (rule remaining_triangles_Inr)
  have "if ?r \<le> 0 then build_directional_model t = Inr (fixed_stages b)
      else int_sqrt_div10 ?r = Inr (nat \<lfloor>sqrt (real_of_int ?r / 10)\<rfloor>)
         \<and> build_directional_model t =
             Inr (spiral_fill (nat \<lfloor>sqrt (real_of_int ?r / 10)\<rfloor>)
                    (10 * nat \<lfloor>sqrt (real_of_int ?r / 10)\<rfloor>) (fixed_stages b))"
  proof (cases "0 < ?r")
    case True
    have th: "isqrt (nat ?r div 10) = nat \<lfloor>sqrt (real_of_int ?r / 10)\<rfloor>"
      using True by (rule spiral_theta_floor)
    have "int_sqrt_div10 ?r = Inr (isqrt (nat ?r div 10))"
      using remaining_positive_small [OF assms True] by blast
    moreover have "build_directional_model t =
        Inr (spiral_fill (isqrt (nat ?r div 10)) (isqrt (nat ?r div 10) * 10) (fixed_stages b))"
      using True by (simp only: build_directional_model_Inr [OF assms] if_True)
    ultimately show ?thesis
      using True unfolding th by (simp add: mult.commute)
  next
    case False
    then have "build_directional_model t = Inr (fixed_stages b)"
      by (simp only: build_directional_model_Inr [OF assms] if_False)
    with False show ?thesis by simp
  qed
  then show ?thesis
    unfolding Let_def fixed_stages_unfolded
    using r length_faces_fixed_stages [of b] by (intro conjI)
qed

theorem texture_fill_budget_witness:
  "int_sqrt_div10 40 = Inr 2 \<and> remaining_triangles 40 = 18 \<and> int_sqrt_div10 18 = Inr 1
   \<and> build_directional_model 40 =
       Inr (spiral_fill 1 10 (arrow_patches 2 (axis_marker Z_axis
             (axis_marker Y_axis (axis_marker X_axis (cone_body 2 empty_mesh))))))"
proof -
  have "int_sqrt_div10 40 = Inr (isqrt (nat 40 div 10))"
    by (rule int_sqrt_div10_exact) simp_all
  moreover have "isqrt 4 = 2"
    by (rule isqrt_unique) simp_all
  ultimately have b: "int_sqrt_div10 40 = Inr 2"
    by simp
  have l: "int (length (faces (arrow_patches 2 (axis_marker Z_axis (axis_marker Y_axis
      (axis_marker X_axis (cone_body 2 empty_mesh))))))) = 22"
    using length_faces_fixed_stages [of 2] by (simp add: fixed_stages_def)
  have s: "nat \<lfloor>sqrt (real_of_int (40 - 22) / 10)\<rfloor> = 1"
  proof -
    have "isqrt (nat 18 div 10) = nat \<lfloor>sqrt (real_of_int 18 / 10)\<rfloor>"
      by (rule isqrt_nat_floor) simp
    moreover have "isqrt (nat 18 div 10) = 1"
      by (rule isqrt_unique) simp_all
    ultimately show ?thesis by simp
  qed
  show ?thesis
    using texture_fill_budget [OF b] b unfolding Let_def l s by simp
qed

lemma quad_index_set_eq: "quad_index_set v = {v ..< v + 4}"
  by (auto simp: quad_index_set_def quad_faces_def face_index_set_def)

lemma quad_index_sets_disjoint:
  "n \<noteq> n' \<Longrightarrow> quad_index_set (v + 4 * n) \<inter> quad_index_set (v + 4 * n') = {}"
  unfolding quad_index_set_eq by auto

lemma take_vertices_spiral_fill:
  "take (length (vertices m)) (vertices (spiral_fill t p m)) = vertices m"
proof -
  obtain vs where "vertices (spiral_fill t p m) = vertices m @ vs"
    using vertices_spiral_fill_extends by blast
  then show ?thesis by simp
qed

text \<open>
  C10. When the texture fill runs (the remaining budget \<open>R\<close> is positive), with
  \<open>\<theta> = \<lfloor>sqrt (R / 10)\<rfloor>\<close> it appends exactly the faces of \<open>10 \<theta>\<^sup>2\<close> quads, that is
  \<open>20 \<theta>\<^sup>2\<close> faces, and \<open>40 \<theta>\<^sup>2\<close> vertices after the ones already there; quad number \<open>n\<close>
  uses the four vertices \<open>V + 4 n, \<dots>, V + 4 n + 3\<close> and no others (\<open>V\<close> the vertex count
  before the stage), so two different quads share no vertex.
\<close>

theorem spiral_fill_count:
  assumes "0 \<le> t" and "0 < remaining_triangles t"
  shows "let m = fixed_stages (isqrt (nat t div 10));
             theta = nat \<lfloor>sqrt (real_of_int (remaining_triangles t) / 10)\<rfloor>
         in \<exists>r. create_directional_model t = Inr r
              \<and> faces (buffers r) = faces m @ quad_run (length (vertices m)) (10 * (theta * theta))
              \<and> length (faces (buffers r)) = length (faces m) + 20 * (theta * theta)
              \<and> length (vertices (buffers r)) = length (vertices m) + 40 * (theta * theta)
              \<and> take (length (vertices m)) (vertices (buffers r)) = vertices m
              \<and> (\<forall>n. quad_index_set (length (vertices m) + 4 * n)
                       = {length (vertices m) + 4 * n ..< length (vertices m) + 4 * n + 4})
              \<and> (\<forall>n n'. n \<noteq> n' \<longrightarrow>
                    quad_index_set (length (vertices m) + 4 * n)
                    \<inter> quad_index_set (length (vertices m) + 4 * n') = {})"
proof -
  let ?m = "fixed_stages (isqrt (nat t div 10))"
  let ?th = "isqrt (nat (remaining_triangles t) div 10)"
  have small: "t < 10 ^ 13"
    using remaining_triangles_pos [OF assms(2)] by (rule conjunct2)
  from create_directional_model_small [OF assms(1) small] obtain m where
    m: "build_directional_model t = Inr m" and
    c: "create_directional_model t =
           Inr \<lparr>buffers = m, stl_file = map (resolve (vertices m)) (faces m),
                actual_triangles = length (faces m)\<rparr>"
    by blast
  have m_eq: "m = spiral_fill ?th (?th * 10) ?m"
    using m assms(2) by (simp add: build_directional_model_small [OF assms(1) small])
  have th: "nat \<lfloor>sqrt (real_of_int (remaining_triangles t) / 10)\<rfloor> = ?th"
    by (simp only: spiral_theta_floor [OF assms(2)])
  have f: "faces m = faces ?m @ quad_run (length (vertices ?m)) (10 * (?th * ?th))"
    unfolding m_eq by (simp add: spiral_fill_shape mult_ac)
  have lf: "length (faces m) = length (faces ?m) + 20 * (?th * ?th)"
    unfolding f by (simp add: length_quad_run)
  have lv: "length (vertices m) = length (vertices ?m) + 40 * (?th * ?th)"
    unfolding m_eq by (simp add: spiral_fill_shape)
  have tk: "take (length (vertices ?m)) (vertices m) = vertices ?m"
    unfolding m_eq by (rule take_vertices_spiral_fill)
  have b: "buffers \<lparr>buffers = m, stl_file = map (resolve (vertices m)) (faces m),
                actual_triangles = length (faces m)\<rparr> = m"
    by simp
  show ?thesis
    unfolding Let_def th
    apply (rule exI [where x = "\<lparr>buffers = m, stl_file = map (resolve (vertices m)) (faces m),
                actual_triangles = length (faces m)\<rparr>"])
    unfolding b
    using c f lf lv tk quad_index_set_eq quad_index_sets_disjoint
    by (intro conjI allI impI)
qed

theorem spiral_fill_count_witness:
  "(0::int) \<le> 40 \<and> 0 < remaining_triangles 40
   \<and> (\<exists>r. create_directional_model 40 = Inr r
         \<and> length (faces (buffers r)) = 42 \<and> length (vertices (buffers r)) = 59
         \<and> drop 22 (faces (buffers r)) = quad_run 19 10)"
proof -
  have i4: "isqrt 4 = 2"
    by (rule isqrt_unique) simp_all
  have i: "isqrt (nat 40 div 10) = 2"
    using i4 by simp
  have r: "remaining_triangles 40 = 18"
    using remaining_triangles_small [of 40] by (simp add: i4 length_faces_fixed_stages)
  have s: "nat \<lfloor>sqrt (real_of_int 18 / 10)\<rfloor> = 1"
  proof -
    have "isqrt (nat 18 div 10) = nat \<lfloor>sqrt (real_of_int 18 / 10)\<rfloor>"
      by (rule isqrt_nat_floor) simp
    moreover have "isqrt (nat 18 div 10) = 1"
      by (rule isqrt_unique) simp_all
    ultimately show ?thesis by simp
  qed
  have lf: "length (faces (fixed_stages 2)) = 22"
    by (simp add: length_faces_fixed_stages)
  have lv: "length (vertices (fixed_stages 2)) = 19"
    by (simp add: length_vertices_fixed_stages)
  have "\<exists>r. create_directional_model 40 = Inr r
         \<and> faces (buffers r) = faces (fixed_stages 2) @ quad_run 19 10
         \<and> length (faces (buffers r)) = 42 \<and> length (vertices (buffers r)) = 59"
    using spiral_fill_count [of 40] unfolding Let_def i r s lf lv by simp blast
  then obtain r' where "create_directional_model 40 = Inr r'"
    and "faces (buffers r') = faces (fixed_stages 2) @ quad_run 19 10"
    and "length (faces (buffers r')) = 42" and "length (vertices (buffers r')) = 59"
    by blast
  then have "create_directional_model 40 = Inr r'
         \<and> length (faces (buffers r')) = 42 \<and> length (vertices (buffers r')) = 59
         \<and> drop 22 (faces (buffers r')) = quad_run 19 10"
    by (simp add: lf)
  then show ?thesis
    unfolding r by (intro conjI exI [where x = r']) simp_all
qed

lemma isqrt_39999: "isqrt 39999 = 199"
  by (rule isqrt_unique) simp_all

lemma isqrt_40000: "isqrt 40000 = 200"
  by (rule isqrt_unique) simp_all

lemma isqrt_39650: "isqrt 39650 = 199"
  by (rule isqrt_unique) simp_all

lemma isqrt_39558: "isqrt 39558 = 198"
  by (rule isqrt_unique) simp_all

lemma cone_triangles_399999: "cone_triangles 399999 = 795514"
proof -
  have f: "length (faces (fixed_stages 199)) = 3494"
    by (simp add: length_faces_fixed_stages)
  have r: "remaining_triangles 399999 = 396505"
    using remaining_triangles_small [of 399999] by (simp add: isqrt_39999 f)
  show ?thesis
    using cone_triangles_eq [of 399999] by (simp add: r isqrt_39999 isqrt_39650 f)
qed

lemma cone_triangles_400000: "cone_triangles 400000 = 788498"
proof -
  have f: "length (faces (fixed_stages 200)) = 4418"
    by (simp add: length_faces_fixed_stages)
  have r: "remaining_triangles 400000 = 395582"
    using remaining_triangles_small [of 400000] by (simp add: isqrt_40000 f)
  show ?thesis
    using cone_triangles_eq [of 400000] by (simp add: r isqrt_40000 isqrt_39558 f)
qed

text \<open>
  C4, as stated, fails: the target 399999 yields 795514 triangles, the larger target
  400000 only 788498. At 400000 the base resolution steps from 199 to 200, the arrow
  patches take 922 more faces, and the texture fill drops from \<open>\<theta> = 199\<close> to \<open>\<theta> = 198\<close>.
\<close>

theorem monotonicity_counterexample:
  "\<not> cone_triangles 399999 \<le> cone_triangles 400000"
  by (simp add: cone_triangles_399999 cone_triangles_400000)


text \<open>
  C4, amended. For targets \<open>0 \<le> T1 \<le> T2\<close> for which line 18 yields the same base
  resolution (below \<open>10\<^sup>1\<^sup>3\<close>: \<open>\<lfloor>sqrt (T1 / 10)\<rfloor> = \<lfloor>sqrt (T2 / 10)\<rfloor>\<close>), the cone generator
  emits at most as many triangles for \<open>T1\<close> as for \<open>T2\<close>.
\<close>

theorem monotone_within_resolution:
  assumes "0 \<le> t1" and "t1 \<le> t2" and "int_sqrt_div10 t1 = int_sqrt_div10 t2"
  shows "cone_triangles t1 \<le> cone_triangles t2"
proof (cases "int_sqrt_div10 t1")
  case (Inl e)
  then have "cone_triangles t1 = 0" by (rule cone_triangles_Inl)
  then show ?thesis by simp
next
  case (Inr b)
  then have b2: "int_sqrt_div10 t2 = Inr b" using assms(3) by simp
  have r1: "remaining_triangles t1 = t1 - int (length (faces (fixed_stages b)))"
    using Inr by (rule remaining_triangles_Inr)
  have r2: "remaining_triangles t2 = t2 - int (length (faces (fixed_stages b)))"
    using b2 by (rule remaining_triangles_Inr)
  have r: "remaining_triangles t1 \<le> remaining_triangles t2"
    using assms(2) by (simp add: r1 r2)
  let ?s1 = "isqrt (nat (remaining_triangles t1) div 10)"
  let ?s2 = "isqrt (nat (remaining_triangles t2) div 10)"
  have "(if 0 < remaining_triangles t1 then 20 * (?s1 * ?s1) else 0)
      \<le> (if 0 < remaining_triangles t2 then 20 * (?s2 * ?s2) else 0)"
  proof (cases "0 < remaining_triangles t1")
    case True
    then have pos: "0 < remaining_triangles t2" using r by simp
    have "nat (remaining_triangles t1) div 10 \<le> nat (remaining_triangles t2) div 10"
      using r by (simp add: div_le_mono)
    then have "?s1 \<le> ?s2" by (rule isqrt_mono)
    then have "?s1 * ?s1 \<le> ?s2 * ?s2" by (simp add: mult_le_mono)
    then show ?thesis using True pos by simp
  next
    case False
    then show ?thesis by simp
  qed
  then show ?thesis
    unfolding cone_triangles_Inr [OF Inr] cone_triangles_Inr [OF b2] by simp
qed

theorem monotone_within_resolution_witness:
  "(0::int) \<le> 40 \<and> (40::int) \<le> 50 \<and> int_sqrt_div10 40 = int_sqrt_div10 50
   \<and> cone_triangles 40 \<le> cone_triangles 50"
proof -
  have "isqrt 4 = 2" by (rule isqrt_unique) simp_all
  moreover have "isqrt 5 = 2" by (rule isqrt_unique) simp_all
  ultimately have e: "int_sqrt_div10 40 = int_sqrt_div10 50"
    using int_sqrt_div10_exact [of 40] int_sqrt_div10_exact [of 50] by simp
  show ?thesis
    using monotone_within_resolution [of 40 50] e by simp
qed

section \<open>The stages of the terrain generator\<close>

lemma foldE_Inr:
  assumes "\<And>x s. x \<in> set xs \<Longrightarrow> f x s = Inr (g x s)"
  shows "foldE f xs s = Inr (fold g xs s)"
  using assms by (induction xs arbitrary: s) simp_all

lemma np_iadd_transposed:
  "np_iadd (a, b) (b, a) = (if a = b then Inr (a, b) else Inl ValueError)"
  by (auto simp: np_iadd_def broadcast_dim_def)

lemma terrain_arrays_eq:
  "terrain_arrays width height m =
     (if width < 0 \<or> height < 0 \<or> width \<noteq> height then Inl (ValueError, Some m)
      else Inr ((nat height, nat width), (nat width, nat height)))"
proof (cases "width < 0 \<or> height < 0")
  case True
  then show ?thesis
    by (auto simp: terrain_arrays_def np_linspace_def)
next
  case False
  then have nn: "\<not> width < 0" "\<not> height < 0" by simp_all
  have eq: "(nat width = nat height) = (width = height)"
    using nn by auto
  show ?thesis
    using nn
    by (simp add: terrain_arrays_def np_linspace_def np_meshgrid_def np_zeros_def Let_def
        np_iadd_transposed eq)
qed

lemma np_index_nat: "i < n \<Longrightarrow> np_index n (int i) = Inr i"
  by (simp add: np_index_def)

lemma getitem2_nat: "i < a \<Longrightarrow> j < b \<Longrightarrow> getitem2 (a, b) (int i) (int j) = Inr (i, j)"
  by (simp add: getitem2_def np_index_nat)

lemma grid_vertices_square:
  "grid_vertices (n, n) (n, n) (int n) (int n) m =
     Inr (fold (\<lambda>i. fold (\<lambda>j. append_vertex (GridPoint i j)) [0..<n]) [0..<n] m)"
proof -
  have row: "foldE (\<lambda>j. grid_vertex (n, n) (n, n) i j) [0..<n] s
      = Inr (fold (\<lambda>j. append_vertex (GridPoint i j)) [0..<n] s)" if "i < n" for i s
    by (rule foldE_Inr) (use that in \<open>simp add: grid_vertex_def getitem2_nat\<close>)
  show ?thesis
    unfolding grid_vertices_def nat_int
    by (rule foldE_Inr) (simp add: row)
qed

lemma grid_points_shape:
  "length (vertices (fold (\<lambda>i. fold (\<lambda>j. append_vertex (GridPoint i j)) ys) xs m))
     = length (vertices m) + length xs * length ys
   \<and> faces (fold (\<lambda>i. fold (\<lambda>j. append_vertex (GridPoint i j)) ys) xs m) = faces m"
  by (induction xs arbitrary: m)
     (simp_all add: vertices_fold_append_vertex faces_fold_append_vertex)

lemma fold_faces_only:
  assumes "\<And>x m. vertices (g x m) = vertices m"
    and "\<And>x m. faces (g x m) = faces m @ F x"
  shows "vertices (fold g xs m) = vertices m \<and> faces (fold g xs m) = faces m @ concat (map F xs)"
  by (induction xs arbitrary: m) (simp_all add: assms)

lemma grid_cell_shape:
  "vertices (grid_cell w i j m) = vertices m
   \<and> faces (grid_cell w i j m) = faces m @ grid_cell_faces w i j"
  by (simp add: grid_cell_def grid_cell_faces_def Let_def)

lemma grid_faces_shape:
  "vertices (grid_faces (int w) (int h) m) = vertices m
   \<and> faces (grid_faces (int w) (int h) m) = faces m @ grid_face_list w h"
proof -
  have n: "nat (int w - 1) = w - 1" "nat (int h - 1) = h - 1"
    by simp_all
  have row: "vertices (fold (\<lambda>j. grid_cell w i j) xs m) = vertices m
      \<and> faces (fold (\<lambda>j. grid_cell w i j) xs m)
          = faces m @ concat (map (\<lambda>j. grid_cell_faces w i j) xs)" for i xs m
    by (rule fold_faces_only) (simp_all add: grid_cell_shape)
  have "vertices (fold (\<lambda>i. fold (\<lambda>j. grid_cell w i j) [0..<w - 1]) xs m) = vertices m
      \<and> faces (fold (\<lambda>i. fold (\<lambda>j. grid_cell w i j) [0..<w - 1]) xs m)
          = faces m @ concat (map (\<lambda>i. concat (map (\<lambda>j. grid_cell_faces w i j) [0..<w - 1])) xs)"
    for xs
    by (rule fold_faces_only) (simp_all add: row)
  then show ?thesis
    unfolding grid_faces_def grid_face_list_def n nat_int by blast
qed

lemma length_concat_const:
  assumes "\<And>x. x \<in> set xs \<Longrightarrow> length (F x) = c"
  shows "length (concat (map F xs)) = length xs * c"
  using assms by (induction xs) simp_all

lemma length_grid_face_list: "length (grid_face_list w h) = 2 * ((w - 1) * (h - 1))"
proof -
  have "length (concat (map (\<lambda>j. grid_cell_faces w i j) [0..<w - 1])) = (w - 1) * 2" for i
    using length_concat_const [of "[0..<w - 1]" "\<lambda>j. grid_cell_faces w i j" 2]
    by (simp add: grid_cell_faces_def)
  then have "length (grid_face_list w h) = (h - 1) * ((w - 1) * 2)"
    unfolding grid_face_list_def
    using length_concat_const [of "[0..<h - 1]"
        "\<lambda>i. concat (map (\<lambda>j. grid_cell_faces w i j) [0..<w - 1])" "(w - 1) * 2"]
    by simp
  then show ?thesis by (simp add: mult_ac)
qed

lemma grid_cell_faces_ok:
  assumes i: "i < h - 1" and j: "j < w - 1" and n: "w * h \<le> n"
  shows "list_all (face_in_range n) (grid_cell_faces w i j)
       \<and> list_all face_distinct (grid_cell_faces w i j)"
proof -
  have "i + 2 \<le> h" using i by simp
  then have "(i + 2) * w \<le> h * w" by (rule mult_le_mono1)
  then have top: "(i + 1) * w + w \<le> n" using n by (simp add: algebra_simps)
  have j2: "j + 1 < w" using j by simp
  have "(i + 1) * w + j + 1 < n" using top j2 by linarith
  moreover have "i * w + j + 1 < (i + 1) * w + j" using j2 by simp
  ultimately show ?thesis
    by (simp add: grid_cell_faces_def face_in_range_def face_distinct_def)
qed

lemma grid_face_list_ok:
  assumes "w * h \<le> n"
  shows "list_all (face_in_range n) (grid_face_list w h)
       \<and> list_all face_distinct (grid_face_list w h)"
  using grid_cell_faces_ok [OF _ _ assms]
  by (auto simp: grid_face_list_def list_all_iff)

lemma extendsI:
  assumes "vertices m' = vertices m @ vs" and "length vs = a"
    and "faces m' = faces m @ fs" and "length fs = b"
    and "list_all (face_in_range (length (vertices m) + a)) fs"
    and "list_all face_distinct fs"
  shows "extends m a b m'"
  unfolding extends_def using assms by blast

lemma extends_refl: "extends m 0 0 m"
  by (rule extendsI [where vs = "[]" and fs = "[]"]) simp_all

lemma extends_trans:
  assumes "extends m a b m'" and "extends m' c d m''"
  shows "extends m (a + c) (b + d) m''"
proof -
  from assms(1) obtain vs fs where 1: "vertices m' = vertices m @ vs" "length vs = a"
    "faces m' = faces m @ fs" "length fs = b"
    "list_all (face_in_range (length (vertices m) + a)) fs" "list_all face_distinct fs"
    unfolding extends_def by blast
  from assms(2) obtain ws gs where 2: "vertices m'' = vertices m' @ ws" "length ws = c"
    "faces m'' = faces m' @ gs" "length gs = d"
    "list_all (face_in_range (length (vertices m') + c)) gs" "list_all face_distinct gs"
    unfolding extends_def by blast
  have r1: "list_all (face_in_range (length (vertices m) + (a + c))) fs"
    using 1(5) by (rule list_all_face_in_range_mono) simp
  have r2: "list_all (face_in_range (length (vertices m) + (a + c))) gs"
    using 2(5) by (simp add: 1 add.assoc)
  show ?thesis
    by (rule extendsI [where vs = "vs @ ws" and fs = "fs @ gs"])
       (simp_all add: 1 2 r1 r2)
qed

lemma extends_length:
  assumes "extends m a b m'"
  shows "length (vertices m') = length (vertices m) + a \<and> length (faces m') = length (faces m) + b"
  using assms unfolding extends_def by auto

lemma extends_take_faces:
  assumes "extends m a b m'"
  shows "take (length (faces m)) (faces m') = faces m"
  using assms unfolding extends_def by auto

lemma extends_indices_valid:
  assumes "extends m a b m'" and "indices_valid m"
  shows "indices_valid m'"
proof -
  from assms(1) obtain vs fs where 1: "vertices m' = vertices m @ vs" "length vs = a"
    "faces m' = faces m @ fs"
    "list_all (face_in_range (length (vertices m) + a)) fs"
    unfolding extends_def by blast
  have "list_all (face_in_range (length (vertices m) + a)) (faces m)"
    using assms(2) unfolding indices_valid_def by (rule list_all_face_in_range_mono) simp
  then show ?thesis
    by (simp add: indices_valid_def 1)
qed

lemma extends_no_degenerate:
  assumes "extends m a b m'" and "no_degenerate m"
  shows "no_degenerate m'"
  using assms unfolding extends_def no_degenerate_def by auto

lemma extends_fold:
  assumes "\<And>x m. extends m a b (g x m)"
  shows "extends m (length xs * a) (length xs * b) (fold g xs m)"
proof (induction xs arbitrary: m)
  case Nil
  then show ?case by (simp add: extends_refl)
next
  case (Cons x xs)
  have "extends m (a + length xs * a) (b + length xs * b) (fold g xs (g x m))"
    using assms [of m x] Cons.IH [of "g x m"] by (rule extends_trans)
  then show ?case by simp
qed

lemma extends_append_quad: "extends m 4 2 (append_quad p1 p2 p3 p4 m)"
  by (rule extendsI [where vs = "[p1, p2, p3, p4]" and fs = "quad_faces (length (vertices m))"])
     (simp_all add: vertices_append_quad faces_append_quad quad_faces_def
        face_in_range_def face_distinct_def)

lemma marker_faces_ok:
  "list_all (face_in_range (v + 8)) (map (\<lambda>(f0, f1, f2). (f0 + v, f1 + v, f2 + v)) marker_faces)
   \<and> list_all face_distinct (map (\<lambda>(f0, f1, f2). (f0 + v, f1 + v, f2 + v)) marker_faces)"
  by (simp add: marker_faces_def face_in_range_def face_distinct_def)

lemma extends_corner_marker: "extends m 8 12 (corner_marker ic m)"
proof (rule extendsI)
  show "vertices (corner_marker ic m)
      = vertices m @ map (\<lambda>k. CornerMarker (fst ic) k (snd ic)) [0..<8]"
    by (simp add: corner_marker_def Let_def fold_append_face_split
        vertices_fold_append_vertex vertices_fold_append_face)
  show "faces (corner_marker ic m)
      = faces m @ map (\<lambda>(f0, f1, f2). (f0 + length (vertices m), f1 + length (vertices m),
                                         f2 + length (vertices m))) marker_faces"
    by (simp add: corner_marker_def Let_def fold_append_face_split
        faces_fold_append_vertex faces_fold_append_face)
  show "list_all (face_in_range (length (vertices m) + 8))
      (map (\<lambda>(f0, f1, f2). (f0 + length (vertices m), f1 + length (vertices m),
                              f2 + length (vertices m))) marker_faces)"
    using marker_faces_ok by blast
  show "list_all face_distinct
      (map (\<lambda>(f0, f1, f2). (f0 + length (vertices m), f1 + length (vertices m),
                              f2 + length (vertices m))) marker_faces)"
    using marker_faces_ok by blast
qed (simp_all add: marker_faces_def)

lemma np_index_values:
  assumes "0 < n"
  shows "np_index n 0 = Inr 0" and "np_index n (- 1) = Inr (n - 1)"
    and "np_index n (int n div 2) = Inr (n div 2)"
proof -
  show "np_index n 0 = Inr 0" using assms by (simp add: np_index_def)
  show "np_index n (- 1) = Inr (n - 1)" using assms by (simp add: np_index_def nat_diff_distrib)
  have "int n div 2 = int (n div 2)" by simp
  moreover have "n div 2 < n" using assms by simp
  ultimately show "np_index n (int n div 2) = Inr (n div 2)"
    by (simp only: np_index_nat)
qed

lemma np_index_empty: "np_index 0 i = Inl IndexError"
  by (simp add: np_index_def)

lemma corner_markers_empty: "corner_markers (0, 0) m = Inl (IndexError, Some m)"
  by (simp add: corner_markers_def getitem2_def np_index_empty)

lemma corner_markers_square:
  assumes "0 < n"
  shows "\<exists>m'. corner_markers (n, n) m = Inr m' \<and> extends m 32 48 m'"
proof -
  let ?cs = "zip [0..<4] [(0, 0), (0, n - 1), (n - 1, 0), (n - 1, n - 1)]"
  have "corner_markers (n, n) m = Inr (fold corner_marker ?cs m)"
    by (simp add: corner_markers_def getitem2_def np_index_values [OF assms])
  moreover have "extends m (length ?cs * 8) (length ?cs * 12) (fold corner_marker ?cs m)"
    by (rule extends_fold) (rule extends_corner_marker)
  ultimately show ?thesis by simp
qed

lemma axis_lines_square:
  assumes "0 < n"
  shows "\<exists>m'. axis_lines (n, n) (int n) (int n) m = Inr m' \<and> extends m 8 4 m'"
proof -
  have "extends m (4 + 4) (2 + 2)
      (append_quad (YAxisLine 0 (0, n div 2)) (YAxisLine 1 (0, n div 2))
         (YAxisLine 2 (n - 1, n div 2)) (YAxisLine 3 (n - 1, n div 2))
         (append_quad (XAxisLine 0 (n div 2, 0)) (XAxisLine 1 (n div 2, 0))
            (XAxisLine 2 (n div 2, n - 1)) (XAxisLine 3 (n div 2, n - 1)) m))"
    by (rule extends_trans) (rule extends_append_quad)+
  then show ?thesis
    by (simp add: axis_lines_def getitem2_def np_index_values [OF assms])
qed

lemma arrow_base_fold:
  "vertices (fst (fold (arrow_base_vertex zc) xs (m, js)))
     = vertices m @ map (\<lambda>i. ArrowBase i zc) xs
   \<and> faces (fst (fold (arrow_base_vertex zc) xs (m, js))) = faces m
   \<and> snd (fold (arrow_base_vertex zc) xs (m, js))
     = js @ map (\<lambda>k. length (vertices m) + k) [0..<length xs]"
proof (induction xs arbitrary: m js)
  case Nil
  then show ?case by simp
next
  case (Cons x xs)
  have step: "arrow_base_vertex zc x (m, js)
      = (append_vertex (ArrowBase x zc) m, js @ [length (vertices m)])"
    by (simp add: arrow_base_vertex_def Let_def)
  have shift: "map (\<lambda>k. length (vertices m) + k) [0..<Suc (length xs)]
      = length (vertices m) # map (\<lambda>k. Suc (length (vertices m)) + k) [0..<length xs]"
    by (simp add: upt_conv_Cons map_Suc_upt [symmetric] del: upt_Suc)
  show ?case
    using Cons.IH [of "append_vertex (ArrowBase x zc) m" "js @ [length (vertices m)]"]
    by (simp add: step shift del: upt_Suc)
qed

lemma fan_faces_ok:
  assumes "a < n" and "c + 21 \<le> n" and "a \<le> c \<or> c + 20 < a"
  shows "list_all (face_in_range n)
           (map (\<lambda>i. (a, map (\<lambda>k. Suc c + k) [0..<20] ! i,
                        map (\<lambda>k. Suc c + k) [0..<20] ! ((i + 1) mod 20))) [0..<20])
       \<and> list_all face_distinct
           (map (\<lambda>i. (a, map (\<lambda>k. Suc c + k) [0..<20] ! i,
                        map (\<lambda>k. Suc c + k) [0..<20] ! ((i + 1) mod 20))) [0..<20])"
proof -
  have nth: "map (\<lambda>k. Suc c + k) [0..<20] ! i = Suc c + i" if "i < 20" for i
    using that by simp
  have m: "(i + 1) mod 20 < 20" for i :: nat
    by simp
  have ne: "(i + 1) mod 20 \<noteq> i" if "i < 20" for i :: nat
  proof (cases "i + 1 < 20")
    case True
    then show ?thesis by simp
  next
    case False
    with that have "i = 19" by simp
    then show ?thesis by simp
  qed
  have "face_in_range n (a, Suc c + i, Suc c + (i + 1) mod 20)
      \<and> face_distinct (a, Suc c + i, Suc c + (i + 1) mod 20)" if "i < 20" for i
    using assms that m [of i] ne [OF that]
    by (auto simp: face_in_range_def face_distinct_def)
  then show ?thesis
    by (simp add: list_all_iff nth [OF m] nth)
qed

lemma central_arrow_square:
  assumes "0 < n"
  shows "\<exists>m'. central_arrow (n, n) (int n) (int n) m = Inr m' \<and> extends m 22 40 m'"
proof -
  let ?zc = "(n div 2, n div 2)"
  let ?c = "length (vertices m)"
  let ?s = "fold (arrow_base_vertex ?zc) [0..<20] (append_vertex (ArrowCenter ?zc) m, [])"
  let ?idx = "map (\<lambda>k. Suc ?c + k) [0..<20]"
  let ?fan = "\<lambda>a. map (\<lambda>i. (a, ?idx ! i, ?idx ! ((i + 1) mod 20))) [0..<20]"
  let ?m' = "fold (\<lambda>i. append_face (?c + 21, ?idx ! i, ?idx ! ((i + 1) mod 20))) [0..<20]
      (fold (\<lambda>i. append_face (?c, ?idx ! i, ?idx ! ((i + 1) mod 20))) [0..<20]
         (append_vertex (ArrowTip ?zc) (fst ?s)))"
  have sv: "vertices (fst ?s) = vertices m @ ArrowCenter ?zc # map (\<lambda>i. ArrowBase i ?zc) [0..<20]"
    and sf: "faces (fst ?s) = faces m"
    and si: "snd ?s = ?idx"
    using arrow_base_fold [of ?zc "[0..<20]" "append_vertex (ArrowCenter ?zc) m" "[]"]
    by simp_all
  have len: "length (vertices (fst ?s)) = ?c + 21"
    by (simp add: sv)
  have z: "getitem2 (n, n) (int n div 2) (int n div 2) = Inr ?zc"
    by (simp add: getitem2_def np_index_values [OF assms])
  have run: "central_arrow (n, n) (int n) (int n) m = Inr ?m'"
    unfolding central_arrow_def Let_def z sum.case si len by (rule refl)
  have v: "vertices ?m' = vertices m
      @ (ArrowCenter ?zc # map (\<lambda>i. ArrowBase i ?zc) [0..<20] @ [ArrowTip ?zc])"
    by (simp add: vertices_fold_append_face sv)
  have f: "faces ?m' = faces m @ (?fan ?c @ ?fan (?c + 21))"
    by (simp add: faces_fold_append_face sf)
  have ok1: "list_all (face_in_range (?c + 22)) (?fan ?c) \<and> list_all face_distinct (?fan ?c)"
    by (rule fan_faces_ok) simp_all
  have ok2: "list_all (face_in_range (?c + 22)) (?fan (?c + 21))
      \<and> list_all face_distinct (?fan (?c + 21))"
    by (rule fan_faces_ok) simp_all
  have "extends m 22 40 ?m'"
  proof (rule extendsI [OF v _ f])
    show "length (ArrowCenter ?zc # map (\<lambda>i. ArrowBase i ?zc) [0..<20] @ [ArrowTip ?zc]) = 22"
      by simp
    show "length (?fan ?c @ ?fan (?c + 21)) = 40"
      by simp
    show "list_all (face_in_range (?c + 22)) (?fan ?c @ ?fan (?c + 21))"
      using ok1 ok2 by (simp only: list_all_append simp_thms)
    show "list_all face_distinct (?fan ?c @ ?fan (?c + 21))"
      using ok1 ok2 by (simp only: list_all_append simp_thms)
  qed
  with run show ?thesis by blast
qed

lemma grid_stage_square:
  "\<exists>m1. grid_vertices (n, n) (n, n) (int n) (int n) empty_mesh = Inr m1
      \<and> length (vertices m1) = n * n
      \<and> vertices (grid_faces (int n) (int n) m1) = vertices m1
      \<and> faces (grid_faces (int n) (int n) m1) = grid_face_list n n"
  by (simp add: grid_vertices_square grid_points_shape grid_faces_shape empty_mesh_def)

lemma build_terrain_invalid:
  "width < 0 \<or> height < 0 \<or> width \<noteq> height \<Longrightarrow>
   build_terrain width height = Inl (ValueError, Some empty_mesh)"
  by (simp add: build_terrain_def terrain_arrays_eq)

lemma build_terrain_empty:
  "build_terrain 0 0 = Inl (IndexError, Some empty_mesh)"
proof -
  have "grid_vertices (0, 0) (0, 0) 0 0 empty_mesh = Inr empty_mesh"
    by (simp add: grid_vertices_def)
  moreover have "grid_faces 0 0 empty_mesh = empty_mesh"
    by (simp add: grid_faces_def)
  ultimately show ?thesis
    by (simp add: build_terrain_def terrain_arrays_eq corner_markers_empty)
qed

lemma build_terrain_square:
  assumes "0 < n"
  shows "\<exists>m. build_terrain (int n) (int n) = Inr m
       \<and> length (vertices m) = n * n + 62
       \<and> faces m = grid_face_list n n @ drop (length (grid_face_list n n)) (faces m)
       \<and> length (faces m) = 2 * ((n - 1) * (n - 1)) + 92
       \<and> indices_valid m \<and> no_degenerate m"
proof -
  obtain m1 where m1: "grid_vertices (n, n) (n, n) (int n) (int n) empty_mesh = Inr m1"
    and v1: "length (vertices m1) = n * n"
    and v2: "vertices (grid_faces (int n) (int n) m1) = vertices m1"
    and f2: "faces (grid_faces (int n) (int n) m1) = grid_face_list n n"
    using grid_stage_square by blast
  let ?m2 = "grid_faces (int n) (int n) m1"
  obtain m3 where m3: "corner_markers (n, n) ?m2 = Inr m3" and e3: "extends ?m2 32 48 m3"
    using corner_markers_square [OF assms] by blast
  obtain m4 where m4: "central_arrow (n, n) (int n) (int n) m3 = Inr m4"
    and e4: "extends m3 22 40 m4"
    using central_arrow_square [OF assms] by blast
  obtain m5 where m5: "axis_lines (n, n) (int n) (int n) m4 = Inr m5" and e5: "extends m4 8 4 m5"
    using axis_lines_square [OF assms] by blast
  have e: "extends ?m2 (32 + 22 + 8) (48 + 40 + 4) m5"
    using e3 e4 e5 by (blast intro: extends_trans)
  have run: "build_terrain (int n) (int n) = Inr m5"
    by (simp add: build_terrain_def terrain_arrays_eq m1 m3 m4 m5)
  have ok2: "indices_valid ?m2 \<and> no_degenerate ?m2"
    using grid_face_list_ok [of n n "n * n"]
    by (simp add: indices_valid_def no_degenerate_def v2 v1 f2)
  have tk: "take (length (grid_face_list n n)) (faces m5) = grid_face_list n n"
    using extends_take_faces [OF e] by (simp add: f2)
  have "faces m5 = take (length (grid_face_list n n)) (faces m5)
      @ drop (length (grid_face_list n n)) (faces m5)"
    by simp
  then have sp: "faces m5 = grid_face_list n n @ drop (length (grid_face_list n n)) (faces m5)"
    by (simp only: tk)
  have "length (vertices m5) = n * n + 62" "length (faces m5) = 2 * ((n - 1) * (n - 1)) + 92"
    using extends_length [OF e] by (simp_all add: v2 v1 f2 length_grid_face_list)
  moreover have "indices_valid m5" "no_degenerate m5"
    using extends_indices_valid [OF e] extends_no_degenerate [OF e] ok2 by simp_all
  ultimately show ?thesis
    using run sp by blast
qed

lemma create_terrain_invalid:
  "width < 0 \<or> height < 0 \<or> width \<noteq> height \<Longrightarrow>
   create_complex_oriented_terrain width height = Inl (ValueError, Some empty_mesh)"
  by (simp add: create_complex_oriented_terrain_def build_terrain_invalid)

lemma create_terrain_empty:
  "create_complex_oriented_terrain 0 0 = Inl (IndexError, Some empty_mesh)"
  by (simp add: create_complex_oriented_terrain_def build_terrain_empty)

lemma create_terrain_square:
  assumes "0 < n"
  shows "\<exists>m. build_terrain (int n) (int n) = Inr m
       \<and> create_complex_oriented_terrain (int n) (int n) =
           Inr \<lparr>buffers = m, stl_file = map (resolve (vertices m)) (faces m),
                actual_triangles = length (faces m)\<rparr>"
proof -
  obtain m where m: "build_terrain (int n) (int n) = Inr m" and "indices_valid m"
    using build_terrain_square [OF assms] by blast
  then show ?thesis
    by (simp add: create_complex_oriented_terrain_def save_mesh_valid)
qed

lemma create_terrain_Inr:
  assumes "create_complex_oriented_terrain w h = Inr r"
  shows "0 < w \<and> w = h \<and> build_terrain w h = Inr (buffers r)
       \<and> stl_file r = map (resolve (vertices (buffers r))) (faces (buffers r))
       \<and> actual_triangles r = length (faces (buffers r))"
proof -
  have valid: "\<not> (w < 0 \<or> h < 0 \<or> w \<noteq> h)"
    using assms create_terrain_invalid [of w h] by auto
  have "w \<noteq> 0"
    using assms valid create_terrain_empty by auto
  with valid have w: "0 < w" "w = h" by simp_all
  then have "0 < nat w" "int (nat w) = w" by simp_all
  with create_terrain_square [of "nat w"] w assms show ?thesis
    by auto
qed

lemma int_sqrt_div10_10: "int_sqrt_div10 10 = Inr 1"
proof -
  have "int_sqrt_div10 10 = Inr (isqrt (nat 10 div 10))"
    by (rule int_sqrt_div10_exact) simp_all
  moreover have "isqrt 1 = 1"
    by (rule isqrt_unique) simp_all
  ultimately show ?thesis by simp
qed

lemma create_terrain_build:
  assumes "build_terrain w h = Inr m"
  shows "indices_valid m
       \<and> create_complex_oriented_terrain w h =
           Inr \<lparr>buffers = m, stl_file = map (resolve (vertices m)) (faces m),
                actual_triangles = length (faces m)\<rparr>"
proof -
  have valid: "\<not> (w < 0 \<or> h < 0 \<or> w \<noteq> h)"
    using assms build_terrain_invalid [of w h] by auto
  have "w \<noteq> 0"
    using assms valid build_terrain_empty by auto
  with valid have w: "0 < w" "w = h" by simp_all
  then have n: "0 < nat w" "int (nat w) = w" "int (nat w) = h" by simp_all
  have "build_terrain (int (nat w)) (int (nat w)) = Inr m"
    using assms w by simp
  with build_terrain_square [OF n(1)] have v: "indices_valid m"
    by auto
  then have "create_complex_oriented_terrain w h =
           Inr \<lparr>buffers = m, stl_file = map (resolve (vertices m)) (faces m),
                actual_triangles = length (faces m)\<rparr>"
    using assms by (simp add: create_complex_oriented_terrain_def save_mesh_valid)
  with v show ?thesis by simp
qed

text \<open>
  C1. In every mesh that either generator builds, each index of each face is below the
  vertex count, so that the serialization step finds all three vertices of every face
  and the run ends with the file saved and the mesh as its buffers. The cone generator
  builds a mesh for every target \<open>0 < T < 10\<^sup>1\<^sup>3\<close>, the terrain generator for every square
  grid of positive dimensions below \<open>2\<^sup>3\<^sup>0\<close>. (The terrain generator raises when width
  and height differ.)
\<close>

theorem index_validity:
  "(build_directional_model t = Inr m \<longrightarrow>
      indices_valid m
      \<and> create_directional_model t =
          Inr \<lparr>buffers = m, stl_file = map (resolve (vertices m)) (faces m),
               actual_triangles = length (faces m)\<rparr>)
   \<and> (build_terrain w h = Inr m' \<longrightarrow>
        indices_valid m'
        \<and> create_complex_oriented_terrain w h =
            Inr \<lparr>buffers = m', stl_file = map (resolve (vertices m')) (faces m'),
                 actual_triangles = length (faces m')\<rparr>)
   \<and> (0 < t \<and> t < 10 ^ 13 \<longrightarrow> (\<exists>m. build_directional_model t = Inr m))
   \<and> (0 < w \<and> w = h \<and> w < 2 ^ 30 \<longrightarrow> (\<exists>m. build_terrain w h = Inr m))"
proof (intro conjI impI)
  assume b: "build_directional_model t = Inr m"
  show "indices_valid m"
    using b by (rule indices_valid_cone)
  show "create_directional_model t =
          Inr \<lparr>buffers = m, stl_file = map (resolve (vertices m)) (faces m),
               actual_triangles = length (faces m)\<rparr>"
    using b by (rule create_directional_model_build)
next
  assume b: "build_terrain w h = Inr m'"
  show "indices_valid m'"
    using create_terrain_build [OF b] by (rule conjunct1)
  show "create_complex_oriented_terrain w h =
            Inr \<lparr>buffers = m', stl_file = map (resolve (vertices m')) (faces m'),
                 actual_triangles = length (faces m')\<rparr>"
    using create_terrain_build [OF b] by (rule conjunct2)
next
  assume "0 < t \<and> t < 10 ^ 13"
  then have "0 \<le> t" "t < 10 ^ 13" by simp_all
  from create_directional_model_small [OF this]
  show "\<exists>m. build_directional_model t = Inr m" by blast
next
  assume "0 < w \<and> w = h \<and> w < 2 ^ 30"
  then have "0 < nat w" "int (nat w) = w" "int (nat w) = h" by simp_all
  with build_terrain_square [of "nat w"]
  show "\<exists>m. build_terrain w h = Inr m" by auto
qed

theorem index_validity_witness:
  "(0::int) < 10 \<and> (10::int) < 10 ^ 13 \<and> (0::int) < 2 \<and> (2::int) < 2 ^ 30
   \<and> (\<exists>m r. build_directional_model 10 = Inr m \<and> indices_valid m
         \<and> create_directional_model 10 = Inr r \<and> buffers r = m
         \<and> stl_file r = map (resolve (vertices m)) (faces m))
   \<and> (\<exists>m r. build_terrain 2 2 = Inr m \<and> indices_valid m
         \<and> create_complex_oriented_terrain 2 2 = Inr r \<and> buffers r = m
         \<and> stl_file r = map (resolve (vertices m)) (faces m))"
proof -
  have "(0::int) < 10 \<and> (10::int) < 10 ^ 13 \<longrightarrow> (\<exists>m. build_directional_model 10 = Inr m)"
    by (rule index_validity [where t = 10, THEN conjunct2, THEN conjunct2, THEN conjunct1])
  then obtain m where m: "build_directional_model 10 = Inr m"
    by auto
  have "(0::int) < 2 \<and> (2::int) = 2 \<and> (2::int) < 2 ^ 30 \<longrightarrow> (\<exists>m. build_terrain 2 2 = Inr m)"
    by (rule index_validity [where w = 2 and h = 2, THEN conjunct2, THEN conjunct2, THEN conjunct2])
  then obtain m' where m': "build_terrain 2 2 = Inr m'"
    by auto
  have c: "indices_valid m
      \<and> create_directional_model 10 =
          Inr \<lparr>buffers = m, stl_file = map (resolve (vertices m)) (faces m),
               actual_triangles = length (faces m)\<rparr>"
    using index_validity [of 10 m 2 2 m'] m by simp
  have c': "indices_valid m'
      \<and> create_complex_oriented_terrain 2 2 =
          Inr \<lparr>buffers = m', stl_file = map (resolve (vertices m')) (faces m'),
               actual_triangles = length (faces m')\<rparr>"
    using index_validity [of 10 m 2 2 m'] m' by simp
  have "\<exists>r. build_directional_model 10 = Inr m \<and> indices_valid m
         \<and> create_directional_model 10 = Inr r \<and> buffers r = m
         \<and> stl_file r = map (resolve (vertices m)) (faces m)"
    using m c by simp
  moreover have "\<exists>r. build_terrain 2 2 = Inr m' \<and> indices_valid m'
         \<and> create_complex_oriented_terrain 2 2 = Inr r \<and> buffers r = m'
         \<and> stl_file r = map (resolve (vertices m')) (faces m')"
    using m' c' by simp
  ultimately show ?thesis by auto
qed

lemma no_degenerate_cone:
  assumes "int_sqrt_div10 t = Inr b" and "build_directional_model t = Inr m"
  shows "no_degenerate m \<longleftrightarrow> b \<noteq> 1"
proof -
  let ?r = "t - int (length (faces (fixed_stages b)))"
  have "m = (if 0 < ?r
          then spiral_fill (isqrt (nat ?r div 10)) (isqrt (nat ?r div 10) * 10) (fixed_stages b)
          else fixed_stages b)"
    using assms(2) by (simp only: build_directional_model_Inr [OF assms(1)] sum.inject)
  then show ?thesis
    by (simp add: no_degenerate_spiral_fill no_degenerate_fixed_stages)
qed

lemma int_sqrt_div10_one:
  "int_sqrt_div10 t = Inr 1 \<longleftrightarrow> 10 \<le> t \<and> t \<le> 39"
proof
  assume a: "int_sqrt_div10 t = Inr 1"
  have t: "0 \<le> t" using int_sqrt_div10_Inr [OF a] by (rule conjunct1)
  have s: "t < 10 ^ 13"
  proof (rule ccontr)
    assume "\<not> t < 10 ^ 13"
    then have "10 ^ 13 \<le> t" by simp
    then have "(2::nat) ^ 19 \<le> 1" using large_target [OF a] by blast
    then show False by simp
  qed
  have "isqrt (nat t div 10) = 1"
    using int_sqrt_div10_exact [OF t s] a by simp
  then have "1 \<le> nat t div 10 \<and> nat t div 10 < 4"
    using isqrt_bounds [of "nat t div 10"] by simp
  then show "10 \<le> t \<and> t \<le> 39"
    using t by linarith
next
  assume a: "10 \<le> t \<and> t \<le> 39"
  then have t: "0 \<le> t" and s: "t < 10 ^ 13" by simp_all
  have "1 \<le> nat t div 10 \<and> nat t div 10 < 4"
    using a by linarith
  then have "isqrt (nat t div 10) = 1"
    by (intro isqrt_unique) simp_all
  then show "int_sqrt_div10 t = Inr 1"
    using int_sqrt_div10_exact [OF t s] by simp
qed

lemma isqrt_1: "isqrt 1 = 1"
  by (rule isqrt_unique) simp_all

lemma isqrt_Suc_0: "isqrt (Suc 0) = Suc 0"
  using isqrt_1 by simp

lemma isqrt_4: "isqrt 4 = 2"
  by (rule isqrt_unique) simp_all

lemma cone_10_faces:
  "\<exists>m. build_directional_model 10 = Inr m \<and> (0, 1, 1) \<in> set (faces m) \<and> \<not> no_degenerate m"
proof -
  have m: "build_directional_model 10 = Inr (fixed_stages 1)"
    using build_directional_model_Inr [OF int_sqrt_div10_10]
    by (simp add: length_faces_fixed_stages)
  have nd: "\<not> no_degenerate (fixed_stages 1)"
    using no_degenerate_cone [OF int_sqrt_div10_10 m] by simp
  have "(0, 1, 1) \<in> set (faces (fixed_stages 1))"
    by (simp add: faces_fixed_stages)
  with m nd show ?thesis by blast
qed

text \<open>
  C2, as stated, fails: nothing clamps the resolution, and for the target 10 the base
  resolution is 1, the rim has one vertex, and the side face of the cone is \<open>(0, 1, 1)\<close>.
\<close>

theorem degenerate_face_counterexample:
  "case create_directional_model 10 of
     Inl f \<Rightarrow> False
   | Inr r \<Rightarrow> (0, 1, 1) \<in> set (faces (buffers r)) \<and> \<not> no_degenerate (buffers r)"
proof -
  obtain m where m: "build_directional_model 10 = Inr m"
    and f: "(0, 1, 1) \<in> set (faces m)" and nd: "\<not> no_degenerate m"
    using cone_10_faces by blast
  have "create_directional_model 10 =
      Inr \<lparr>buffers = m, stl_file = map (resolve (vertices m)) (faces m),
           actual_triangles = length (faces m)\<rparr>"
    using m by (rule create_directional_model_build)
  then show ?thesis
    using f nd by simp
qed

text \<open>
  C2, amended. No resolution is clamped. In a mesh of the cone generator every face has
  three pairwise different indices exactly when the base resolution that line 18 yields
  is not 1, that is unless \<open>10 \<le> T \<le> 39\<close>; in a mesh of the terrain
  generator every face has three pairwise different indices.
\<close>

theorem nondegenerate_unless_resolution_one:
  "(create_directional_model t = Inr r \<longrightarrow>
      (no_degenerate (buffers r) \<longleftrightarrow> int_sqrt_div10 t \<noteq> Inr 1)
      \<and> (int_sqrt_div10 t = Inr 1 \<longleftrightarrow> 10 \<le> t \<and> t \<le> 39))
   \<and> (create_complex_oriented_terrain w h = Inr r' \<longrightarrow> no_degenerate (buffers r'))"
proof (intro conjI impI)
  assume c: "create_directional_model t = Inr r"
  then have b: "build_directional_model t = Inr (buffers r)"
    using create_directional_model_Inr by blast
  obtain b' where b': "int_sqrt_div10 t = Inr b'"
    using build_directional_model_base [OF b] by blast
  show "no_degenerate (buffers r) \<longleftrightarrow> int_sqrt_div10 t \<noteq> Inr 1"
    using no_degenerate_cone [OF b' b] by (simp add: b')
  show "int_sqrt_div10 t = Inr 1 \<longleftrightarrow> 10 \<le> t \<and> t \<le> 39"
    by (rule int_sqrt_div10_one)
next
  assume c: "create_complex_oriented_terrain w h = Inr r'"
  then have w: "0 < w" "w = h" and b: "build_terrain w h = Inr (buffers r')"
    using create_terrain_Inr by blast+
  have "0 < nat w" "int (nat w) = w" "int (nat w) = h" using w by simp_all
  with build_terrain_square [of "nat w"] b show "no_degenerate (buffers r')"
    by auto
qed

theorem nondegenerate_unless_resolution_one_witness:
  "(\<exists>r. create_directional_model 40 = Inr r \<and> no_degenerate (buffers r))
   \<and> (\<exists>r. create_complex_oriented_terrain 2 2 = Inr r \<and> no_degenerate (buffers r))"
proof -
  obtain r where r: "create_directional_model 40 = Inr r"
    using create_directional_model_small [of 40] by auto
  obtain r' where r': "create_complex_oriented_terrain 2 2 = Inr r'"
    using create_terrain_square [of 2] by auto
  have i: "int_sqrt_div10 40 \<noteq> Inr 1"
    using int_sqrt_div10_exact [of 40] by (simp add: isqrt_4)
  have "no_degenerate (buffers r)" "no_degenerate (buffers r')"
    using nondegenerate_unless_resolution_one [of 40 r 2 2 r'] r r' i by simp_all
  with r r' show ?thesis by auto
qed

lemma terrain_stage_counts:
  assumes "0 < n"
  shows "\<exists>m1 m3 m4 m5 r.
      grid_vertices (n, n) (n, n) (int n) (int n) empty_mesh = Inr m1
    \<and> faces (grid_faces (int n) (int n) m1) = grid_face_list n n
    \<and> corner_markers (n, n) (grid_faces (int n) (int n) m1) = Inr m3
    \<and> length (faces m3) = length (grid_face_list n n) + 48
    \<and> central_arrow (n, n) (int n) (int n) m3 = Inr m4
    \<and> length (faces m4) = length (grid_face_list n n) + 48 + 40
    \<and> axis_lines (n, n) (int n) (int n) m4 = Inr m5
    \<and> length (faces m5) = length (grid_face_list n n) + 48 + 40 + 4
    \<and> take (length (grid_face_list n n)) (faces m5) = grid_face_list n n
    \<and> create_complex_oriented_terrain (int n) (int n) = Inr r
    \<and> buffers r = m5 \<and> actual_triangles r = length (faces m5)"
proof -
  obtain m1 where m1: "grid_vertices (n, n) (n, n) (int n) (int n) empty_mesh = Inr m1"
    and f2: "faces (grid_faces (int n) (int n) m1) = grid_face_list n n"
    using grid_stage_square by blast
  let ?m2 = "grid_faces (int n) (int n) m1"
  obtain m3 where m3: "corner_markers (n, n) ?m2 = Inr m3" and e3: "extends ?m2 32 48 m3"
    using corner_markers_square [OF assms] by blast
  obtain m4 where m4: "central_arrow (n, n) (int n) (int n) m3 = Inr m4"
    and e4: "extends m3 22 40 m4"
    using central_arrow_square [OF assms] by blast
  obtain m5 where m5: "axis_lines (n, n) (int n) (int n) m4 = Inr m5" and e5: "extends m4 8 4 m5"
    using axis_lines_square [OF assms] by blast
  have e: "extends ?m2 (32 + 22 + 8) (48 + 40 + 4) m5"
    using e3 e4 e5 by (blast intro: extends_trans)
  have run: "build_terrain (int n) (int n) = Inr m5"
    by (simp add: build_terrain_def terrain_arrays_eq m1 m3 m4 m5)
  have l3: "length (faces m3) = length (grid_face_list n n) + 48"
    using extends_length [OF e3] by (simp add: f2)
  have l4: "length (faces m4) = length (grid_face_list n n) + 48 + 40"
    using extends_length [OF e4] l3 by simp
  have l5: "length (faces m5) = length (grid_face_list n n) + 48 + 40 + 4"
    using extends_length [OF e5] l4 by simp
  have tk: "take (length (grid_face_list n n)) (faces m5) = grid_face_list n n"
    using extends_take_faces [OF e] by (simp add: f2)
  obtain m where "build_terrain (int n) (int n) = Inr m"
    and "create_complex_oriented_terrain (int n) (int n) =
           Inr \<lparr>buffers = m, stl_file = map (resolve (vertices m)) (faces m),
                actual_triangles = length (faces m)\<rparr>"
    using create_terrain_square [OF assms] by blast
  with run have c: "create_complex_oriented_terrain (int n) (int n) =
           Inr \<lparr>buffers = m5, stl_file = map (resolve (vertices m5)) (faces m5),
                actual_triangles = length (faces m5)\<rparr>"
    by simp
  show ?thesis
    apply (rule exI [where x = m1], rule exI [where x = m3], rule exI [where x = m4],
        rule exI [where x = m5])
    apply (rule exI [where x = "\<lparr>buffers = m5, stl_file = map (resolve (vertices m5)) (faces m5),
                actual_triangles = length (faces m5)\<rparr>"])
    using m1 f2 m3 l3 m4 l4 m5 l5 tk c by simp
qed

text \<open>
  C7. The terrain generator with width 10 and height 10 emits 254 faces: the grid stage
  \<open>2 * 9 * 9 = 162\<close>, the four corner markers 48, the central arrow 40 and the two axis
  lines 4; the run reports 254 triangles.
\<close>

theorem terrain_10x10_face_count:
  "\<exists>m1 m3 m4 m5 r.
      terrain_arrays 10 10 empty_mesh = Inr ((10, 10), (10, 10))
    \<and> grid_vertices (10, 10) (10, 10) 10 10 empty_mesh = Inr m1
    \<and> length (faces (grid_faces 10 10 m1)) = 162
    \<and> corner_markers (10, 10) (grid_faces 10 10 m1) = Inr m3
    \<and> length (faces m3) = 162 + 48
    \<and> central_arrow (10, 10) 10 10 m3 = Inr m4
    \<and> length (faces m4) = 162 + 48 + 40
    \<and> axis_lines (10, 10) 10 10 m4 = Inr m5
    \<and> length (faces m5) = 162 + 48 + 40 + 4
    \<and> create_complex_oriented_terrain 10 10 = Inr r
    \<and> buffers r = m5 \<and> actual_triangles r = 254"
proof -
  have l: "length (grid_face_list 10 10) = 162"
    by (simp add: length_grid_face_list)
  have a: "terrain_arrays 10 10 empty_mesh = Inr ((10, 10), (10, 10))"
    by (simp add: terrain_arrays_eq)
  from terrain_stage_counts [of 10] obtain m1 m3 m4 m5 r where
    "grid_vertices (10, 10) (10, 10) 10 10 empty_mesh = Inr m1"
    "faces (grid_faces 10 10 m1) = grid_face_list 10 10"
    "corner_markers (10, 10) (grid_faces 10 10 m1) = Inr m3"
    "length (faces m3) = length (grid_face_list 10 10) + 48"
    "central_arrow (10, 10) 10 10 m3 = Inr m4"
    "length (faces m4) = length (grid_face_list 10 10) + 48 + 40"
    "axis_lines (10, 10) 10 10 m4 = Inr m5"
    "length (faces m5) = length (grid_face_list 10 10) + 48 + 40 + 4"
    "create_complex_oriented_terrain 10 10 = Inr r"
    "buffers r = m5" "actual_triangles r = length (faces m5)"
    by auto
  then show ?thesis
    unfolding l using a l by (intro exI [where x = m1] exI [where x = m3] exI [where x = m4]
      exI [where x = m5] exI [where x = r]) simp
qed

lemma terrain_grid_square:
  assumes "0 < n"
  shows "\<exists>r. create_complex_oriented_terrain (int n) (int n) = Inr r
       \<and> take (2 * ((n - 1) * (n - 1))) (faces (buffers r)) = grid_face_list n n"
  using terrain_stage_counts [OF assms] by (auto simp: length_grid_face_list)

text \<open>
  C6. The grid loop is as the claim says (\<open>grid_faces_shape\<close>, \<open>length_grid_face_list\<close>,
  and \<open>terrain_grid_square\<close> for square grids), but the run does not reach it when width
  and height differ: \<^verbatim>\<open>z_grid\<close> is allocated with shape \<open>(width, height)\<close> and the
  arrays added to it have shape \<open>(height, width)\<close>. With width 2 and height 3 the
  generator raises \<^verbatim>\<open>ValueError\<close> with both buffers still empty.
\<close>

theorem terrain_non_square_raises:
  "create_complex_oriented_terrain 2 3 = Inl (ValueError, Some \<lparr>vertices = [], faces = []\<rparr>)"
  using create_terrain_invalid [of 2 3] by (simp add: empty_mesh_def)

lemma isqrt_0: "isqrt 0 = 0"
  by (simp add: isqrt.simps)

lemma create_directional_model_0:
  "\<exists>r. create_directional_model 0 = Inr r \<and> actual_triangles r = 18
       \<and> length (stl_file r) = 18"
proof -
  have m: "build_directional_model 0 = Inr (fixed_stages 0)"
    using build_directional_model_Inr [OF int_sqrt_div10_0]
    by (simp add: length_faces_fixed_stages)
  have "length (faces (fixed_stages 0)) = 18"
    by (simp add: length_faces_fixed_stages)
  with create_directional_model_build [OF m] show ?thesis by simp
qed

text \<open>
  C8, as stated, fails: the target 0 is not rejected. The cone generator runs to the
  end and saves a file with the 18 triangles of the three axis markers. (And where the
  terrain generator raises, as for the dimensions \<open>0 \<times> 0\<close>, its two buffers exist.)
\<close>

theorem zero_target_counterexample:
  "(case create_directional_model 0 of
      Inl f \<Rightarrow> False
    | Inr r \<Rightarrow> actual_triangles r = 18 \<and> length (stl_file r) = 18)
   \<and> create_complex_oriented_terrain 0 0 = Inl (IndexError, Some \<lparr>vertices = [], faces = []\<rparr>)"
proof -
  obtain r where "create_directional_model 0 = Inr r" "actual_triangles r = 18"
    "length (stl_file r) = 18"
    using create_directional_model_0 by blast
  then show ?thesis
    using create_terrain_empty by (simp add: empty_mesh_def)
qed

text \<open>
  C8, amended. A negative triangle target makes the cone generator raise at line 18,
  before its buffers are created: \<^verbatim>\<open>ValueError\<close> from the square root, or, for targets
  \<open>T \<le> - 10 (2\<^sup>1\<^sup>0\<^sup>2\<^sup>4 - 2\<^sup>9\<^sup>7\<^sup>0)\<close> (about \<open>- 1.8 * 10\<^sup>3\<^sup>0\<^sup>9\<close>), \<^verbatim>\<open>OverflowError\<close> from the
  division. A grid dimension that is zero or negative makes the terrain generator raise
  (\<^verbatim>\<open>ValueError\<close> or \<^verbatim>\<open>IndexError\<close>) when its two buffers exist and are still empty. In
  both cases the run does not reach the save, so no file is written. A zero triangle
  target is accepted.
\<close>

theorem invalid_configuration:
  "(t < 0 \<longrightarrow>
      create_directional_model t =
        Inl (if t \<le> - (10 * (2 ^ 1024 - 2 ^ 970)) then OverflowError else ValueError, None))
   \<and> (w \<le> 0 \<or> h \<le> 0 \<longrightarrow>
        create_complex_oriented_terrain w h = Inl (ValueError, Some empty_mesh)
        \<or> create_complex_oriented_terrain w h = Inl (IndexError, Some empty_mesh))
   \<and> (\<exists>r. create_directional_model 0 = Inr r \<and> actual_triangles r = 18)"
proof (intro conjI impI)
  assume "t < 0"
  then have "int_sqrt_div10 t =
      Inl (if t \<le> - (10 * (2 ^ 1024 - 2 ^ 970)) then OverflowError else ValueError)"
    by (rule int_sqrt_div10_negative)
  then have "build_directional_model t =
      Inl (if t \<le> - (10 * (2 ^ 1024 - 2 ^ 970)) then OverflowError else ValueError, None)"
    by (rule build_directional_model_Inl)
  then show "create_directional_model t =
      Inl (if t \<le> - (10 * (2 ^ 1024 - 2 ^ 970)) then OverflowError else ValueError, None)"
    by (simp only: create_directional_model_def sum.case)
next
  assume wh: "w \<le> 0 \<or> h \<le> 0"
  show "create_complex_oriented_terrain w h = Inl (ValueError, Some empty_mesh)
        \<or> create_complex_oriented_terrain w h = Inl (IndexError, Some empty_mesh)"
  proof (cases "w < 0 \<or> h < 0 \<or> w \<noteq> h")
    case True
    then show ?thesis by (simp add: create_terrain_invalid)
  next
    case False
    with wh have "w = 0" "h = 0" by auto
    then show ?thesis by (simp add: create_terrain_empty)
  qed
next
  show "\<exists>r. create_directional_model 0 = Inr r \<and> actual_triangles r = 18"
    using create_directional_model_0 by blast
qed

theorem invalid_configuration_witness:
  "(- 1 :: int) < 0 \<and> create_directional_model (- 1) = Inl (ValueError, None)
   \<and> (- (10 ^ 310) :: int) < 0
   \<and> create_directional_model (- (10 ^ 310)) = Inl (OverflowError, None)
   \<and> (0 :: int) \<le> 0
   \<and> create_complex_oriented_terrain 0 0 = Inl (IndexError, Some empty_mesh)
   \<and> create_complex_oriented_terrain (- 1) 5 = Inl (ValueError, Some empty_mesh)"
proof -
  have a: "create_directional_model (- 1) = Inl (ValueError, None)"
    using invalid_configuration [of "- 1"] by simp
  have a': "create_directional_model (- (10 ^ 310)) = Inl (OverflowError, None)"
    using invalid_configuration [of "- (10 ^ 310)"] by simp
  have "create_complex_oriented_terrain 0 0 \<noteq> Inl (ValueError, Some empty_mesh)"
    by (simp add: create_terrain_empty)
  then have b: "create_complex_oriented_terrain 0 0 = Inl (IndexError, Some empty_mesh)"
    using invalid_configuration [of _ 0 0] by simp
  have "create_complex_oriented_terrain (- 1) 5 \<noteq> Inl (IndexError, Some empty_mesh)"
    by (simp add: create_terrain_invalid)
  then have c: "create_complex_oriented_terrain (- 1) 5 = Inl (ValueError, Some empty_mesh)"
    using invalid_configuration [of _ "- 1" 5] by simp
  show ?thesis
    using a a' b c by simp
qed

end
